theory Spec2Isabelle
  imports Main "HOL-Library.Word"
begin

section \<open>amqpx: the channel supervisor and the multi-queue consumer\<close>

text \<open>
  A shallow embedding of \<^verbatim>\<open>amqpd.go\<close> (type \<^verbatim>\<open>Amqpx\<close>: \<^verbatim>\<open>New\<close>, \<^verbatim>\<open>initChannel\<close>,
  \<^verbatim>\<open>redial\<close>, \<^verbatim>\<open>Consume\<close>) and of the consumer file (type \<^verbatim>\<open>AmqpxConsumer\<close>:
  \<^verbatim>\<open>AddFunc\<close>, \<^verbatim>\<open>Start\<close>, \<^verbatim>\<open>run\<close>, \<^verbatim>\<open>consume\<close>, \<^verbatim>\<open>runWithRecovery\<close>, \<^verbatim>\<open>Stop\<close>).

  The AMQP transport (package amqp091-go), the logger, the clock and the process-wide
  connection are outside the program. Every call into them is recorded as an
  \<open>effect\<close>, in program order, and every answer they give (an error, a delivery
  stream, whether a connection is closed) is an input of the model.
\<close>

subsection \<open>Values\<close>

text \<open>A Go \<^verbatim>\<open>[]byte\<close>; a Go \<^verbatim>\<open>error\<close> is represented by its message, \<^verbatim>\<open>nil\<close> by \<open>None\<close>.\<close>

type_synonym bytes = "8 word list"

text \<open>
  What a call of a user handler \<^verbatim>\<open>func([]byte) error\<close> does: it returns an error value
  (possibly \<^verbatim>\<open>nil\<close>), or it panics. \<open>Panics r\<close> carries what \<^verbatim>\<open>recover()\<close> reports:
  \<open>Some v\<close> for a value printed as \<open>v\<close>, \<open>None\<close> when \<^verbatim>\<open>recover()\<close> yields \<^verbatim>\<open>nil\<close>.
  A handler that never returns is not modelled: the loop that calls it does not get
  past that call.
\<close>

datatype outcome = Returns "string option" | Panics "string option"

type_synonym handler = "bytes \<Rightarrow> outcome"

text \<open>\<^verbatim>\<open>amqp.Delivery\<close>: the fields the program reads, and the tag its Ack and Reject name.\<close>

record delivery =
  DeliveryTag :: "64 word"
  Body :: bytes

text \<open>
  The calls the consumer side makes on its collaborators.
  \<^item> \<open>ChannelConsume queue consumer autoAck exclusive noLocal noWait\<close> is
    \<^verbatim>\<open>channel.Consume\<close> as \<^verbatim>\<open>Amqpx.Consume\<close> issues it;
  \<^item> \<open>DeliveryAck tag multiple\<close> and \<open>DeliveryReject tag requeue\<close> are \<^verbatim>\<open>dely.Ack\<close> and
    \<^verbatim>\<open>dely.Reject\<close>;
  \<^item> \<open>LogPanic v\<close> is the line \<^verbatim>\<open>amqpd-consumer: panic running job: v\<close> followed by the
    stack trace (at most \<^verbatim>\<open>64 << 10\<close> bytes of it, whose text the model leaves out);
  \<^item> \<open>LogPrintf line\<close> is any other \<^verbatim>\<open>log.Printf\<close>; \<open>SleepSeconds n\<close> is \<^verbatim>\<open>time.Sleep\<close>;
  \<^item> \<open>ConnectionInit\<close> is a call of \<^verbatim>\<open>Init()\<close>, \<open>ConnectionChannel c\<close> is
    \<^verbatim>\<open>Connection.Channel()\<close> on the connection \<open>c\<close>, \<open>ChannelClose ch\<close> is
    \<^verbatim>\<open>ad.channel.Close()\<close> on the channel \<open>ch\<close>, \<open>GoRedial\<close> is \<^verbatim>\<open>go ad.redial()\<close>.
\<close>

datatype effect =
    ChannelConsume string string bool bool bool bool
  | DeliveryAck "64 word" bool
  | DeliveryReject "64 word" bool
  | LogPanic string
  | LogPrintf string
  | SleepSeconds nat
  | ConnectionInit
  | ConnectionChannel nat
  | ChannelClose nat
  | GoRedial

subsection \<open>Handler isolation and the drain loop\<close>

text \<open>
  \<^verbatim>\<open>
  func (ac *AmqpxConsumer) runWithRecovery(f func([]byte) error, body []byte) error {
      defer func() {
          if r := recover(); r != nil { ... log.Printf("amqpd-consumer: panic running job: ...") }
      }()
      return f(body)
  }
  \<close>
  The result is unnamed and the deferred function assigns nothing: when \<^verbatim>\<open>f\<close> panics,
  the panic is recovered and the function returns the zero value of \<^verbatim>\<open>error\<close>, \<^verbatim>\<open>nil\<close>.
\<close>

definition runWithRecovery :: "handler \<Rightarrow> bytes \<Rightarrow> string option \<times> effect list" where
  "runWithRecovery f body =
     (case f body of
        Returns err \<Rightarrow> (err, [])
      | Panics r \<Rightarrow> (None, case r of None \<Rightarrow> [] | Some v \<Rightarrow> [LogPanic v]))"

text \<open>
  The body of \<^verbatim>\<open>for dely := range deliveries\<close>, over the deliveries the stream yields
  before it is closed.
\<close>

fun drain :: "handler \<Rightarrow> delivery list \<Rightarrow> effect list" where
  "drain handler [] = []"
| "drain handler (dely # deliveries) =
     (case runWithRecovery handler (Body dely) of
        (err, logged) \<Rightarrow>
          logged
          @ (if err \<noteq> None then [DeliveryReject (DeliveryTag dely) True]
             else [DeliveryAck (DeliveryTag dely) False])
          @ drain handler deliveries)"

text \<open>
  \<^verbatim>\<open>Amqpx.Consume\<close> and \<^verbatim>\<open>AmqpxConsumer.consume\<close>. The argument \<open>answer\<close> is what
  \<^verbatim>\<open>channel.Consume\<close> gives back: \<open>Inl err\<close>, or \<open>Inr deliveries\<close>, a stream that yields
  \<open>deliveries\<close> and is then closed.
\<close>

definition Consume :: "string \<Rightarrow> string \<Rightarrow> effect" where
  "Consume queue consumer = ChannelConsume queue consumer False False False False"

definition consume ::
  "string \<Rightarrow> string \<Rightarrow> handler \<Rightarrow> string + delivery list \<Rightarrow> string option \<times> effect list" where
  "consume queue consumer handler answer =
     (case answer of
        Inl err \<Rightarrow> (Some (''amqpd consume err: '' @ err), [Consume queue consumer])
      | Inr deliveries \<Rightarrow> (None, Consume queue consumer # drain handler deliveries))"

text \<open>The disposition calls made on the delivery with tag \<open>t\<close>, in order.\<close>

fun disposes :: "64 word \<Rightarrow> effect \<Rightarrow> bool" where
  "disposes t (DeliveryAck t' m) = (t' = t)"
| "disposes t (DeliveryReject t' r) = (t' = t)"
| "disposes t _ = False"

definition dispositions :: "64 word \<Rightarrow> effect list \<Rightarrow> effect list" where
  "dispositions t effs = filter (disposes t) effs"

fun is_disposition :: "effect \<Rightarrow> bool" where
  "is_disposition (DeliveryAck t m) = True"
| "is_disposition (DeliveryReject t r) = True"
| "is_disposition _ = False"

text \<open>Handlers used as concrete inputs.\<close>

definition ok_handler :: handler where
  "ok_handler body = Returns None"

definition failing_handler :: handler where
  "failing_handler body = Returns (Some ''failed'')"

definition panicking_handler :: handler where
  "panicking_handler body = Panics (Some ''boom'')"

definition picky_handler :: handler where
  "picky_handler body = (if body = [] then Returns (Some ''empty body'') else Returns None)"

subsection \<open>The channel supervisor\<close>

text \<open>
  A connection and a channel of the transport are named by numbers. The package
  variable \<^verbatim>\<open>Connection\<close> and the field \<^verbatim>\<open>ad.channel\<close> are pointers: \<open>None\<close> is \<^verbatim>\<open>nil\<close>.
  The field \<^verbatim>\<open>stop\<close> of \<^verbatim>\<open>Amqpx\<close> holds no data: what the redial task receives on it
  is an input of \<open>redial\<close> below.
\<close>

type_synonym conn = nat
type_synonym chan = nat

record Amqpx =
  channel :: "chan option"

text \<open>
  Modelled from the spec: \<^verbatim>\<open>Init()\<close>, the process-wide connection initialisation, is
  a function of the package whose source is not among the files. The spec has it
  establish the shared connection or fail with an error. It is an input here
  (\<open>init_answer\<close>): \<open>Inl err\<close> is the failure (\<^verbatim>\<open>Connection\<close> is left as it was), \<open>Inr c\<close>
  stores the connection \<open>c\<close> in \<^verbatim>\<open>Connection\<close>.

  The answers the collaborators give during one call of \<^verbatim>\<open>initChannel\<close>:
  \<^item> \<open>conn_closed\<close>: \<^verbatim>\<open>Connection.IsClosed()\<close>, asked only when \<^verbatim>\<open>Connection\<close> is not \<^verbatim>\<open>nil\<close>;
  \<^item> \<open>init_answer\<close>: what \<^verbatim>\<open>Init()\<close> does;
  \<^item> \<open>chan_closed\<close>: \<^verbatim>\<open>ad.channel.IsClosed()\<close>, asked only when \<^verbatim>\<open>ad.channel\<close> is not \<^verbatim>\<open>nil\<close>;
  \<^item> \<open>open_answer\<close>: \<^verbatim>\<open>Connection.Channel()\<close>, an error or the new channel.
\<close>

record dial_answers =
  conn_closed :: bool
  init_answer :: "string + conn"
  chan_closed :: bool
  open_answer :: "string + chan"

text \<open>
  \<^verbatim>\<open>
  func (ad *Amqpx) initChannel() error {
      if Connection == nil || Connection.IsClosed() {
          if err := Init(); err != nil {
              return fmt.Errorf("amqpd connection error: %s", err)
          }
      }
      if ad.channel != nil && !ad.channel.IsClosed() {
          ad.channel.Close()
      }
      channel, err := Connection.Channel()
      if err != nil {
          return fmt.Errorf("open channel error: %s", err)
      }
      ad.channel = channel
      return nil
  }
  \<close>
  The result is the error, the package variable \<^verbatim>\<open>Connection\<close>, the receiver, and the calls
  made.
\<close>

definition initChannel ::
  "dial_answers \<Rightarrow> conn option \<Rightarrow> Amqpx \<Rightarrow> string option \<times> conn option \<times> Amqpx \<times> effect list" where
  "initChannel env Connection ad =
     (case (if Connection = None \<or> conn_closed env
            then (case init_answer env of
                    Inl err \<Rightarrow> Inl err
                  | Inr c \<Rightarrow> Inr (c, [ConnectionInit]))
            else Inr (the Connection, [])) of
        Inl err \<Rightarrow> (Some (''amqpd connection error: '' @ err), Connection, ad, [ConnectionInit])
      | Inr (c, inited) \<Rightarrow>
          (let closing = (if channel ad \<noteq> None \<and> \<not> chan_closed env
                          then [ChannelClose (the (channel ad))] else [])
           in case open_answer env of
                Inl err \<Rightarrow>
                  (Some (''open channel error: '' @ err), Some c, ad,
                   inited @ closing @ [ConnectionChannel c])
              | Inr ch \<Rightarrow>
                  (None, Some c, ad\<lparr>channel := Some ch\<rparr>,
                   inited @ closing @ [ConnectionChannel c])))"

text \<open>
  \<^verbatim>\<open>
  func New() (*Amqpx, error) {
      ad := &Amqpx{stop: make(chan struct{})}
      if err := ad.initChannel(); err != nil { return nil, err }
      go ad.redial()
      return ad, nil
  }
  \<close>
  The first component is the Go result pair.
\<close>

definition New ::
  "dial_answers \<Rightarrow> conn option \<Rightarrow> (Amqpx option \<times> string option) \<times> conn option \<times> effect list" where
  "New env Connection =
     (case initChannel env Connection \<lparr>channel = None\<rparr> of
        (Some err, Connection', ad, effs) \<Rightarrow> ((None, Some err), Connection', effs)
      | (None, Connection', ad, effs) \<Rightarrow> ((Some ad, None), Connection', effs @ [GoRedial]))"

text \<open>
  The redial task. Its inputs are what it observes, in order. At the outer
  \<^verbatim>\<open>select\<close> it wakes up on the stop signal or on a close notification
  (\<open>ChannelClosed closeErr attempts\<close>: the notification, printed as \<open>closeErr\<close>, and the
  observations of the retry loop that follows). In each iteration of the retry loop it
  polls the stop signal (\<open>stop_pending\<close>) and, if none is pending, calls \<^verbatim>\<open>initChannel\<close>
  (\<open>answers\<close>).
\<close>

record attempt =
  stop_pending :: bool
  answers :: dial_answers

datatype wake = StopSignal | ChannelClosed string "attempt list"

text \<open>
  The inner loop of \<^verbatim>\<open>redial\<close>:
  \<^verbatim>\<open>
  for {
      select {
      case <-ad.stop:
          return
      default:
      }
      printf("reconnecting...")
      if err := ad.initChannel(); err != nil {
          printf("reconnect error: %s", err)
          time.Sleep(time.Second * 10)
          continue
      }
      printf("channel re-established")
      break
  }
  \<close>
  \<open>Stopped\<close> is the \<^verbatim>\<open>return\<close>, \<open>Reestablished\<close> the \<^verbatim>\<open>break\<close>; \<open>StillRetrying\<close> means that
  the loop has used up the observations given and is still going.
\<close>

datatype retry_result = Stopped | Reestablished | StillRetrying

fun retry ::
  "attempt list \<Rightarrow> conn option \<Rightarrow> Amqpx \<Rightarrow> retry_result \<times> conn option \<times> Amqpx \<times> effect list" where
  "retry [] Connection ad = (StillRetrying, Connection, ad, [])"
| "retry (a # rest) Connection ad =
     (if stop_pending a then (Stopped, Connection, ad, [])
      else
        (case initChannel (answers a) Connection ad of
           (Some err, Connection', ad', effs) \<Rightarrow>
             (case retry rest Connection' ad' of
                (res, Connection'', ad'', later) \<Rightarrow>
                  (res, Connection'', ad'',
                   LogPrintf ''amqpd-redial: reconnecting...'' # effs
                   @ [LogPrintf (''amqpd-redial: reconnect error: '' @ err), SleepSeconds 10]
                   @ later))
         | (None, Connection', ad', effs) \<Rightarrow>
             (Reestablished, Connection', ad',
              LogPrintf ''amqpd-redial: reconnecting...'' # effs
              @ [LogPrintf ''amqpd-redial: channel re-established''])))"

text \<open>
  The outer loop of \<^verbatim>\<open>redial\<close>:
  \<^verbatim>\<open>
  for {
      select {
      case <-ad.stop:
          return
      case closeErr := <-ad.channel.NotifyClose(make(chan *amqp.Error)):
          printf("channel closing: %s", closeErr)
          for { ... }
      }
  }
  \<close>
  \<open>Returned\<close>: the task has ended. \<open>AwaitingWake\<close> and \<open>Retrying\<close>: it has used up the
  observations given, in the outer wait or in the retry loop. \<open>NilChannel\<close>:
  \<^verbatim>\<open>ad.channel\<close> is \<^verbatim>\<open>nil\<close>, on which \<^verbatim>\<open>NotifyClose\<close> cannot be called (\<^verbatim>\<open>New\<close> starts
  the task only once the channel is set).
\<close>

datatype redial_result = Returned | AwaitingWake | Retrying | NilChannel

fun redial ::
  "wake list \<Rightarrow> conn option \<Rightarrow> Amqpx \<Rightarrow> redial_result \<times> conn option \<times> Amqpx \<times> effect list" where
  "redial [] Connection ad = (AwaitingWake, Connection, ad, [])"
| "redial (w # rest) Connection ad =
     (if channel ad = None then (NilChannel, Connection, ad, [])
      else
        (case w of
           StopSignal \<Rightarrow> (Returned, Connection, ad, [])
         | ChannelClosed closeErr attempts \<Rightarrow>
             (case retry attempts Connection ad of
                (Stopped, Connection', ad', effs) \<Rightarrow>
                  (Returned, Connection', ad',
                   LogPrintf (''amqpd-redial: channel closing: '' @ closeErr) # effs)
              | (StillRetrying, Connection', ad', effs) \<Rightarrow>
                  (Retrying, Connection', ad',
                   LogPrintf (''amqpd-redial: channel closing: '' @ closeErr) # effs)
              | (Reestablished, Connection', ad', effs) \<Rightarrow>
                  (case redial rest Connection' ad' of
                     (res, Connection'', ad'', later) \<Rightarrow>
                       (res, Connection'', ad'',
                        LogPrintf (''amqpd-redial: channel closing: '' @ closeErr) # effs @ later)))))"

text \<open>Answers used as concrete inputs.\<close>

definition refused_env :: dial_answers where
  "refused_env = \<lparr>conn_closed = True, init_answer = Inl ''dial tcp: refused'',
                   chan_closed = False, open_answer = Inr 7\<rparr>"

definition reopen_env :: dial_answers where
  "reopen_env = \<lparr>conn_closed = False, init_answer = Inr 2,
                  chan_closed = False, open_answer = Inr 8\<rparr>"

definition reinit_env :: dial_answers where
  "reinit_env = \<lparr>conn_closed = True, init_answer = Inr 2,
                  chan_closed = False, open_answer = Inr 9\<rparr>"

definition exhausted_env :: dial_answers where
  "exhausted_env = \<lparr>conn_closed = False, init_answer = Inr 2,
                     chan_closed = True, open_answer = Inl ''channel id space exhausted''\<rparr>"

definition try_exhausted :: attempt where
  "try_exhausted = \<lparr>stop_pending = False, answers = exhausted_env\<rparr>"

definition try_reopen :: attempt where
  "try_reopen = \<lparr>stop_pending = False, answers = reopen_env\<rparr>"

definition try_stopped :: attempt where
  "try_stopped = \<lparr>stop_pending = True, answers = reopen_env\<rparr>"

subsection \<open>The per-binding loop\<close>

text \<open>The registry's \<^verbatim>\<open>entry\<close> struct.\<close>

record entry =
  Queue :: string
  Handler :: handler

text \<open>
  What one iteration of the loop in \<^verbatim>\<open>run\<close> observes: the flag \<^verbatim>\<open>ac.running\<close> as the
  loop condition reads it, what \<^verbatim>\<open>channel.Consume\<close> answers, and the flag as
  \<^verbatim>\<open>if !ac.running\<close> reads it once the stream has ended (read only when \<^verbatim>\<open>consume\<close> has
  returned \<^verbatim>\<open>nil\<close>). The flag is shared with \<^verbatim>\<open>Start\<close> and \<^verbatim>\<open>Stop\<close>, so each read is an
  input.
\<close>

record iteration =
  head_running :: bool
  answer :: "string + delivery list"
  after_running :: bool

text \<open>
  \<^verbatim>\<open>
  func (ac *AmqpxConsumer) run(csr string, e *entry) {
      for ac.running {
          err := ac.consume(e.Queue, csr, e.Handler)
          if err != nil {
              log.Printf("amqpd-consumer: run error: %s\n", err)
              time.Sleep(time.Second * 15)
              continue
          }
          if !ac.running {
              break
          }
          time.Sleep(time.Second * 15)
      }
      return
  }
  \<close>
  \<open>Exited\<close>: the function has returned. \<open>StillRunning\<close>: it has used up the observations
  given and is still in the loop.
\<close>

datatype run_result = Exited | StillRunning

fun run :: "string \<Rightarrow> entry \<Rightarrow> iteration list \<Rightarrow> run_result \<times> effect list" where
  "run csr e [] = (StillRunning, [])"
| "run csr e (r # rest) =
     (if \<not> head_running r then (Exited, [])
      else
        (case consume (Queue e) csr (Handler e) (answer r) of
           (Some err, effs) \<Rightarrow>
             (case run csr e rest of
                (res, later) \<Rightarrow>
                  (res,
                   effs
                   @ [LogPrintf (''amqpd-consumer: run error: '' @ err @ [CHR 0x0A]),
                      SleepSeconds 15]
                   @ later))
         | (None, effs) \<Rightarrow>
             (if \<not> after_running r then (Exited, effs)
              else
                (case run csr e rest of
                   (res, later) \<Rightarrow> (res, effs @ [SleepSeconds 15] @ later)))))"

text \<open>The calls of \<^verbatim>\<open>channel.Consume\<close> among a list of effects.\<close>

fun is_consume :: "effect \<Rightarrow> bool" where
  "is_consume (ChannelConsume q c a x l w) = True"
| "is_consume _ = False"

text \<open>A binding and observations used as concrete inputs.\<close>

definition orders_entry :: entry where
  "orders_entry = \<lparr>Queue = ''orders'', Handler = picky_handler\<rparr>"

definition round_refused :: iteration where
  "round_refused = \<lparr>head_running = True, answer = Inl ''channel/connection is not open'',
                     after_running = True\<rparr>"

definition round_two :: iteration where
  "round_two = \<lparr>head_running = True,
                 answer = Inr [\<lparr>DeliveryTag = 1, Body = []\<rparr>, \<lparr>DeliveryTag = 2, Body = [7]\<rparr>],
                 after_running = True\<rparr>"

definition round_last :: iteration where
  "round_last = \<lparr>head_running = True, answer = Inr [], after_running = False\<rparr>"

definition round_off :: iteration where
  "round_off = \<lparr>head_running = False, answer = Inr [], after_running = False\<rparr>"

subsection \<open>The consumer supervisor and its goroutines\<close>

text \<open>
  \<^verbatim>\<open>strconv.FormatUint(x, 10)\<close>: the decimal digits of \<open>x\<close>, most significant first, no
  leading zero, \<^verbatim>\<open>0\<close> for zero. \<open>digit_char\<close> is applied to numbers below ten only.
\<close>

definition digit_char :: "nat \<Rightarrow> char" where
  "digit_char d = ''0123456789'' ! d"

fun decimal :: "nat \<Rightarrow> string" where
  "decimal n = (if n < 10 then [digit_char n] else decimal (n div 10) @ [digit_char (n mod 10)])"

declare decimal.simps [simp del]

definition FormatUint :: "64 word \<Rightarrow> string" where
  "FormatUint x = decimal (unat x)"

text \<open>
  The supervisor and the goroutines it has started, as one state.
  \<^item> \<open>entries\<close>, \<open>running\<close>, \<open>jobWaiter\<close> are the fields of \<^verbatim>\<open>AmqpxConsumer\<close>
    (\<open>jobWaiter\<close> is the counter of the \<^verbatim>\<open>sync.WaitGroup\<close>, an integer as the documentation
    of \<^verbatim>\<open>sync\<close> has it); \<^verbatim>\<open>runningMu\<close> is held for the whole of \<^verbatim>\<open>AddFunc\<close>, \<^verbatim>\<open>Start\<close> and
    \<^verbatim>\<open>Stop\<close>, so each of them is one step.
  \<^item> \<open>consumerSeq\<close> is the package variable \<^verbatim>\<open>var consumerSeq uint64\<close>, shared by every
    \<^verbatim>\<open>AmqpxConsumer\<close> of the process.
  \<^item> \<open>loops\<close> are the goroutines started by \<^verbatim>\<open>Start\<close> that have not returned, each with
    the arguments \<^verbatim>\<open>(c, e)\<close> it was started with.
  \<^item> \<open>shutdowns\<close> are the goroutines started by \<^verbatim>\<open>Stop\<close>, each with its position; the
    \<^verbatim>\<open>context.Context\<close> that the \<open>h\<close>-th call of \<^verbatim>\<open>Stop\<close> returns is named by \<open>h\<close>.
  \<^item> \<open>redial_alive\<close>: the redial task of \<^verbatim>\<open>ac.cli\<close> has not returned (it is what
    receives from the unbuffered channel \<^verbatim>\<open>ad.stop\<close>).
  \<^item> \<open>trace\<close>: what has happened, oldest first.
\<close>

datatype shutdown_pc = AtRange | InRange "string list" | AtWait | AtClose | AtCancel | Ended

text \<open>
  \<^item> \<open>WaitGroupAdd\<close>: \<^verbatim>\<open>ac.jobWaiter.Add(1)\<close>;
  \<^item> \<open>LoopLaunched c\<close>: \<^verbatim>\<open>go func(c, e) { defer ac.jobWaiter.Done(); ac.run(c, e) }\<close>;
  \<^item> \<open>LoopReturned c\<close>: that goroutine's \<^verbatim>\<open>run\<close> has returned and \<^verbatim>\<open>Done()\<close> has been called;
  \<^item> \<open>CancelCall h c\<close>: \<^verbatim>\<open>ac.cli.Cancel(c)\<close> by the goroutine of the \<open>h\<close>-th \<^verbatim>\<open>Stop\<close>;
  \<^item> \<open>WaitReturned h\<close>: its \<^verbatim>\<open>ac.jobWaiter.Wait()\<close> has returned;
  \<^item> \<open>CliClose h\<close>: its \<^verbatim>\<open>ac.cli.Close()\<close> has returned;
  \<^item> \<open>Resolved h\<close>: its \<^verbatim>\<open>cancel()\<close>: the context of the \<open>h\<close>-th \<^verbatim>\<open>Stop\<close> is done.
\<close>

datatype event =
    WaitGroupAdd
  | LoopLaunched string
  | LoopReturned string
  | CancelCall nat string
  | WaitReturned nat
  | CliClose nat
  | Resolved nat

record world =
  entries :: "string \<rightharpoonup> entry"
  running :: bool
  jobWaiter :: int
  consumerSeq :: "64 word"
  loops :: "(string \<times> entry) list"
  shutdowns :: "shutdown_pc list"
  redial_alive :: bool
  trace :: "event list"

text \<open>
  \<^verbatim>\<open>
  func NewAmqpxConsumer() (*AmqpxConsumer, error) {
      cli, err := New()
      if err != nil {
          return nil, fmt.Errorf("amqpd connect err, %s", err)
      }
      return &AmqpxConsumer{entries: make(map[string]*entry), cli: cli,
                            running: false, runningMu: sync.Mutex{}}, nil
  }
  \<close>
  \<open>new_consumer seq\<close> is the consumer it returns when \<^verbatim>\<open>New\<close> has succeeded (an empty
  registry, not running, the redial task of its \<^verbatim>\<open>cli\<close> started), in a process whose
  counter stands at \<open>seq\<close>. The field \<^verbatim>\<open>cli\<close> is used for \<^verbatim>\<open>Cancel\<close> and \<^verbatim>\<open>Close\<close> only, which
  appear as events.
\<close>

definition new_consumer :: "64 word \<Rightarrow> world" where
  "new_consumer seq =
     \<lparr>entries = Map.empty, running = False, jobWaiter = 0, consumerSeq = seq,
      loops = [], shutdowns = [], redial_alive = True, trace = []\<rparr>"

definition NewAmqpxConsumer ::
  "dial_answers \<Rightarrow> conn option \<Rightarrow> 64 word
     \<Rightarrow> (world option \<times> string option) \<times> conn option \<times> effect list" where
  "NewAmqpxConsumer env Connection seq =
     (case New env Connection of
        ((cli, Some err), Connection', effs) \<Rightarrow>
          ((None, Some (''amqpd connect err, '' @ err)), Connection', effs)
      | ((cli, None), Connection', effs) \<Rightarrow>
          ((Some (new_consumer seq), None), Connection', effs))"

text \<open>
  \<^verbatim>\<open>
  func (ac *AmqpxConsumer) AddFunc(queue, consumer string, fn func([]byte) error) {
      ac.runningMu.Lock()
      defer ac.runningMu.Unlock()
      suffix := "-" + strconv.FormatUint(atomic.AddUint64(&consumerSeq, 1), 10)
      ac.entries[consumer+suffix] = &entry{Queue: queue, Handler: fn}
      return
  }
  \<close>
  \<^verbatim>\<open>atomic.AddUint64\<close> returns the new value; the addition is that of \<^verbatim>\<open>uint64\<close>.
\<close>

definition AddFunc :: "string \<Rightarrow> string \<Rightarrow> handler \<Rightarrow> world \<Rightarrow> world" where
  "AddFunc queue consumer fn w =
     (let seq = consumerSeq w + 1;
          suffix = ''-'' @ FormatUint seq
      in w\<lparr>consumerSeq := seq,
            entries := (entries w)(consumer @ suffix \<mapsto> \<lparr>Queue = queue, Handler = fn\<rparr>)\<rparr>)"

text \<open>
  \<^verbatim>\<open>
  func (ac *AmqpxConsumer) Start() {
      ac.runningMu.Lock()
      defer ac.runningMu.Unlock()
      if ac.running { return }
      ac.running = true
      for k, v := range ac.entries {
          ac.jobWaiter.Add(1)
          go func(c string, e *entry) {
              defer ac.jobWaiter.Done()
              ac.run(c, e)
          }(k, v)
      }
      return
  }
  \<close>
  Go leaves the order of \<^verbatim>\<open>range\<close> over a map open: \<open>order\<close> is the order in which this
  \<^verbatim>\<open>range\<close> yields the keys, any list that holds every key of the map once
  (\<open>range_order\<close>). \<open>launch\<close> is the body of the loop, for a key \<open>k\<close> and the value \<open>v\<close>
  the map holds for it.
\<close>

definition range_order :: "string list \<Rightarrow> world \<Rightarrow> bool" where
  "range_order order w = (distinct order \<and> set order = dom (entries w))"

definition launch :: "world \<Rightarrow> string \<Rightarrow> world" where
  "launch w k =
     (case entries w k of
        None \<Rightarrow> w
      | Some e \<Rightarrow>
          w\<lparr>jobWaiter := jobWaiter w + 1,
            loops := loops w @ [(k, e)],
            trace := trace w @ [WaitGroupAdd, LoopLaunched k]\<rparr>)"

definition Start :: "string list \<Rightarrow> world \<Rightarrow> world" where
  "Start order w = (if running w then w else foldl launch (w\<lparr>running := True\<rparr>) order)"

text \<open>
  \<^verbatim>\<open>
  func (ac *AmqpxConsumer) Stop() context.Context {
      ac.runningMu.Lock()
      defer ac.runningMu.Unlock()
      if ac.running { ac.running = false }
      ctx, cancel := context.WithCancel(context.Background())
      go func() {
          for csr := range ac.entries { ac.cli.Cancel(csr) }
          ac.jobWaiter.Wait()
          ac.cli.Close()
          cancel()
      }()
      return ctx
  }
  \<close>
  \<open>Stop\<close> is the call itself: it returns the context and leaves the new goroutine at its
  first statement. \<open>shutdown_step\<close> is one step of that goroutine:
  \<^item> \<open>AtRange\<close>: the \<^verbatim>\<open>range\<close> starts, over the keys the registry holds at that moment, in
    the order \<open>order\<close>;
  \<^item> \<open>InRange\<close>: \<^verbatim>\<open>ac.cli.Cancel(csr)\<close> for the next key (its result is dropped);
  \<^item> \<open>AtWait\<close>: \<^verbatim>\<open>Wait()\<close> returns only when the counter is zero;
  \<^item> \<open>AtClose\<close>: \<^verbatim>\<open>ac.cli.Close()\<close> first sends on \<^verbatim>\<open>ad.stop\<close>, which only the redial task
    receives, once, before it returns; then it closes the channel;
  \<^item> \<open>AtCancel\<close>: \<^verbatim>\<open>cancel()\<close>.
  A step that cannot be taken (a blocked \<^verbatim>\<open>Wait\<close> or send) leaves the state as it is.
\<close>

definition Stop :: "world \<Rightarrow> nat \<times> world" where
  "Stop w =
     (length (shutdowns w),
      w\<lparr>running := (if running w then False else running w),
        shutdowns := shutdowns w @ [AtRange]\<rparr>)"

definition resolved :: "nat \<Rightarrow> world \<Rightarrow> bool" where
  "resolved h w = (Resolved h \<in> set (trace w))"

definition set_pc :: "nat \<Rightarrow> shutdown_pc \<Rightarrow> world \<Rightarrow> world" where
  "set_pc h pc w = w\<lparr>shutdowns := (shutdowns w)[h := pc]\<rparr>"

definition emit :: "event \<Rightarrow> world \<Rightarrow> world" where
  "emit ev w = w\<lparr>trace := trace w @ [ev]\<rparr>"

definition shutdown_step :: "nat \<Rightarrow> string list \<Rightarrow> world \<Rightarrow> world" where
  "shutdown_step h order w =
     (case shutdowns w ! h of
        AtRange \<Rightarrow> if range_order order w then set_pc h (InRange order) w else w
      | InRange [] \<Rightarrow> set_pc h AtWait w
      | InRange (csr # rest) \<Rightarrow> set_pc h (InRange rest) (emit (CancelCall h csr) w)
      | AtWait \<Rightarrow> if jobWaiter w = 0 then set_pc h AtClose (emit (WaitReturned h) w) else w
      | AtClose \<Rightarrow>
          if redial_alive w
          then set_pc h AtCancel (emit (CliClose h) (w\<lparr>redial_alive := False\<rparr>))
          else w
      | AtCancel \<Rightarrow> set_pc h Ended (emit (Resolved h) w)
      | Ended \<Rightarrow> w)"

text \<open>
  A loop goroutine returns: its deferred \<^verbatim>\<open>Done()\<close> takes one off the counter (which is
  positive then, see \<open>sane\<close> below). When it returns is decided by \<open>run\<close> (after a read
  of the flag as false); here it may return at any time, which covers every moment at
  which it does.
\<close>

definition loop_returns :: "nat \<Rightarrow> world \<Rightarrow> world" where
  "loop_returns i w =
     w\<lparr>loops := take i (loops w) @ drop (Suc i) (loops w),
       jobWaiter := jobWaiter w - 1,
       trace := trace w @ [LoopReturned (fst (loops w ! i))]\<rparr>"

text \<open>
  What can happen next: a call of the API, an \<^verbatim>\<open>AddFunc\<close> on another consumer of the
  process (it shares \<open>consumerSeq\<close>), the return of the \<open>i\<close>-th live loop, a step of the
  goroutine of the \<open>h\<close>-th \<^verbatim>\<open>Stop\<close>. \<open>exec\<close> runs a schedule.
\<close>

datatype action =
    CallAddFunc string string handler
  | OtherAddFunc
  | CallStart "string list"
  | CallStop
  | LoopReturns nat
  | ShutdownStep nat "string list"

fun step :: "action \<Rightarrow> world \<Rightarrow> world" where
  "step (CallAddFunc queue consumer fn) w = AddFunc queue consumer fn w"
| "step OtherAddFunc w = w\<lparr>consumerSeq := consumerSeq w + 1\<rparr>"
| "step (CallStart order) w = (if range_order order w then Start order w else w)"
| "step CallStop w = snd (Stop w)"
| "step (LoopReturns i) w = (if i < length (loops w) then loop_returns i w else w)"
| "step (ShutdownStep h order) w =
     (if h < length (shutdowns w) then shutdown_step h order w else w)"

fun exec :: "action list \<Rightarrow> world \<Rightarrow> world" where
  "exec [] w = w"
| "exec (a # as) w = exec as (step a w)"

text \<open>Loops launched and not yet returned, counted on a trace.\<close>

fun live_loops :: "event list \<Rightarrow> int" where
  "live_loops [] = 0"
| "live_loops (LoopLaunched c # evs) = live_loops evs + 1"
| "live_loops (LoopReturned c # evs) = live_loops evs - 1"
| "live_loops (ev # evs) = live_loops evs"

text \<open>The identities for which the goroutine of the \<open>h\<close>-th \<^verbatim>\<open>Stop\<close> has called Cancel.\<close>

definition cancelled :: "nat \<Rightarrow> event list \<Rightarrow> string set" where
  "cancelled h evs = {c. CancelCall h c \<in> set evs}"

text \<open>Registrations in a schedule: all of them, and those on this consumer.\<close>

fun is_registration :: "action \<Rightarrow> bool" where
  "is_registration (CallAddFunc queue consumer fn) = True"
| "is_registration OtherAddFunc = True"
| "is_registration _ = False"

fun is_AddFunc :: "action \<Rightarrow> bool" where
  "is_AddFunc (CallAddFunc queue consumer fn) = True"
| "is_AddFunc _ = False"

text \<open>
  How far the goroutine of the \<open>h\<close>-th \<^verbatim>\<open>Stop\<close> has come, read off a trace, for a set \<open>K\<close>
  of identities: \<^verbatim>\<open>Wait\<close> has returned at a moment when Cancel had been called for all
  of \<open>K\<close> and no loop was live (\<open>waited\<close>); after that \<^verbatim>\<open>Close\<close> has returned
  (\<open>closed_after_wait\<close>); after that the context has been resolved
  (\<open>shutdown_complete\<close>).
\<close>

definition waited :: "string set \<Rightarrow> nat \<Rightarrow> event list \<Rightarrow> bool" where
  "waited K h tr =
     (\<exists>t1 t2. tr = t1 @ WaitReturned h # t2 \<and> K \<subseteq> cancelled h t1 \<and> live_loops t1 = 0)"

definition closed_after_wait :: "string set \<Rightarrow> nat \<Rightarrow> event list \<Rightarrow> bool" where
  "closed_after_wait K h tr =
     (\<exists>t1 t2 t3. tr = t1 @ WaitReturned h # t2 @ CliClose h # t3
        \<and> K \<subseteq> cancelled h t1 \<and> live_loops t1 = 0)"

definition shutdown_complete :: "string set \<Rightarrow> nat \<Rightarrow> event list \<Rightarrow> bool" where
  "shutdown_complete K h tr =
     (\<exists>t1 t2 t3 t4. tr = t1 @ WaitReturned h # t2 @ CliClose h # t3 @ Resolved h # t4
        \<and> K \<subseteq> cancelled h t1 \<and> live_loops t1 = 0)"

text \<open>What the trace must hold at each position of that goroutine.\<close>

definition phase_inv :: "string set \<Rightarrow> nat \<Rightarrow> shutdown_pc \<Rightarrow> event list \<Rightarrow> bool" where
  "phase_inv K h pc tr =
     (case pc of
        AtRange \<Rightarrow> Resolved h \<notin> set tr
      | InRange rest \<Rightarrow> K \<subseteq> set rest \<union> cancelled h tr \<and> Resolved h \<notin> set tr
      | AtWait \<Rightarrow> K \<subseteq> cancelled h tr \<and> Resolved h \<notin> set tr
      | AtClose \<Rightarrow> waited K h tr \<and> Resolved h \<notin> set tr
      | AtCancel \<Rightarrow> closed_after_wait K h tr \<and> Resolved h \<notin> set tr
      | Ended \<Rightarrow> shutdown_complete K h tr)"

definition shutdown_inv :: "string set \<Rightarrow> nat \<Rightarrow> world \<Rightarrow> bool" where
  "shutdown_inv K h w =
     (h < length (shutdowns w) \<and> K \<subseteq> dom (entries w)
      \<and> jobWaiter w = live_loops (trace w)
      \<and> phase_inv K h (shutdowns w ! h) (trace w))"

text \<open>
  What holds of every state the supervisor reaches: the counter is the number of live
  loops, and only contexts that \<^verbatim>\<open>Stop\<close> has handed out are resolved.
\<close>

definition sane :: "world \<Rightarrow> bool" where
  "sane w =
     (jobWaiter w = live_loops (trace w) \<and> jobWaiter w = int (length (loops w))
      \<and> (\<forall>h. Resolved h \<in> set (trace w) \<longrightarrow> h < length (shutdowns w)))"

definition registrations :: "action list \<Rightarrow> nat" where
  "registrations as = length (filter is_registration as)"

definition own_registrations :: "action list \<Rightarrow> nat" where
  "own_registrations as = length (filter is_AddFunc as)"

text \<open>An identity with a sequence number above \<open>lo\<close> and up to \<open>hi\<close>.\<close>

definition numbered :: "nat \<Rightarrow> nat \<Rightarrow> string \<Rightarrow> bool" where
  "numbered lo hi k = (\<exists>l n. k = l @ ''-'' @ decimal n \<and> lo < n \<and> n \<le> hi)"







subsection \<open>Properties of the drain loop\<close>

lemma runWithRecovery_no_disposition:
  "filter (disposes t) (snd (runWithRecovery f b)) = []"
  by (simp add: runWithRecovery_def split: outcome.splits option.splits)

lemma drain_append: "drain h (xs @ ys) = drain h xs @ drain h ys"
  by (induction xs) (auto split: prod.splits)

lemma dispositions_drain_other:
  "t \<notin> DeliveryTag ` set ds \<Longrightarrow> dispositions t (drain h ds) = []"
proof (induction ds)
  case Nil
  then show ?case by (simp add: dispositions_def)
next
  case (Cons d ds)
  obtain err logged where r: "runWithRecovery h (Body d) = (err, logged)"
    by (cases "runWithRecovery h (Body d)")
  have "filter (disposes t) logged = []"
    using runWithRecovery_no_disposition [of t h "Body d"] r by simp
  with Cons r show ?case by (auto simp: dispositions_def)
qed

lemma dispositions_drain_member:
  assumes "distinct (map DeliveryTag ds)" and "d \<in> set ds"
  shows "dispositions (DeliveryTag d) (drain h ds) =
           (if fst (runWithRecovery h (Body d)) \<noteq> None
            then [DeliveryReject (DeliveryTag d) True]
            else [DeliveryAck (DeliveryTag d) False])"
  using assms
proof (induction ds)
  case Nil
  then show ?case by simp
next
  case (Cons x ds)
  obtain err logged where r: "runWithRecovery h (Body x) = (err, logged)"
    by (cases "runWithRecovery h (Body x)")
  have nolog: "filter (disposes t) logged = []" for t
    using runWithRecovery_no_disposition [of t h "Body x"] r by simp
  show ?case
  proof (cases "d = x")
    case True
    have "DeliveryTag x \<notin> DeliveryTag ` set ds" using Cons.prems by auto
    then have "dispositions (DeliveryTag x) (drain h ds) = []"
      by (rule dispositions_drain_other)
    then show ?thesis using True r nolog by (auto simp: dispositions_def)
  next
    case False
    then have mem: "d \<in> set ds" using Cons.prems by simp
    have dist: "distinct (map DeliveryTag ds)" using Cons.prems by simp
    have neq: "DeliveryTag x \<noteq> DeliveryTag d" using Cons.prems mem by auto
    show ?thesis
      using Cons.IH [OF dist mem] r nolog neq by (auto simp: dispositions_def)
  qed
qed

lemma drain_dispositions_count: "length (filter is_disposition (drain h ds)) = length ds"
  by (induction ds) (auto simp: runWithRecovery_def split: outcome.splits option.splits)

text \<open>
  C2. Every delivery drained from a consume stream gets exactly one disposition call:
  \<^verbatim>\<open>Reject(requeue = true)\<close> and no Ack when the handler returns an error,
  \<^verbatim>\<open>Ack(multiple = false)\<close>, once, and no Reject when the handler returns \<^verbatim>\<open>nil\<close>.
  Deliveries are told apart by their delivery tags, which are distinct on one stream.
  In all there are as many disposition calls as deliveries.
\<close>

theorem consume_one_disposition:
  assumes "distinct (map DeliveryTag ds)" and "d \<in> set ds"
  shows "length (dispositions (DeliveryTag d) (snd (consume q c h (Inr ds)))) = 1
       \<and> (\<forall>e. h (Body d) = Returns (Some e) \<longrightarrow>
            dispositions (DeliveryTag d) (snd (consume q c h (Inr ds)))
              = [DeliveryReject (DeliveryTag d) True])
       \<and> (h (Body d) = Returns None \<longrightarrow>
            dispositions (DeliveryTag d) (snd (consume q c h (Inr ds)))
              = [DeliveryAck (DeliveryTag d) False])
       \<and> length (filter is_disposition (snd (consume q c h (Inr ds)))) = length ds"
proof -
  have "dispositions (DeliveryTag d) (snd (consume q c h (Inr ds)))
          = dispositions (DeliveryTag d) (drain h ds)"
    by (simp add: consume_def Consume_def dispositions_def)
  moreover have "length (filter is_disposition (snd (consume q c h (Inr ds)))) = length ds"
    by (simp add: consume_def Consume_def drain_dispositions_count)
  ultimately show ?thesis
    using dispositions_drain_member [OF assms, of h]
    by (auto simp: runWithRecovery_def)
qed

theorem consume_one_disposition_witness:
  "distinct (map DeliveryTag [\<lparr>DeliveryTag = 1, Body = []\<rparr>, \<lparr>DeliveryTag = 2, Body = [7]\<rparr>])
   \<and> \<lparr>DeliveryTag = 2, Body = [7]\<rparr> \<in> set [\<lparr>DeliveryTag = 1, Body = []\<rparr>, \<lparr>DeliveryTag = 2, Body = [7]\<rparr>]
   \<and> picky_handler [7] = Returns None
   \<and> dispositions 2 (snd (consume ''orders'' ''w1-1'' picky_handler
         (Inr [\<lparr>DeliveryTag = 1, Body = []\<rparr>, \<lparr>DeliveryTag = 2, Body = [7]\<rparr>])))
       = [DeliveryAck 2 False]
   \<and> dispositions 1 (snd (consume ''orders'' ''w1-1'' picky_handler
         (Inr [\<lparr>DeliveryTag = 1, Body = []\<rparr>, \<lparr>DeliveryTag = 2, Body = [7]\<rparr>])))
       = [DeliveryReject 1 True]"
proof -
  let ?ds = "[\<lparr>DeliveryTag = 1, Body = []\<rparr>, \<lparr>DeliveryTag = 2, Body = [7]\<rparr>] :: delivery list"
  have d: "distinct (map DeliveryTag ?ds)" by simp
  have m2: "\<lparr>DeliveryTag = 2, Body = [7]\<rparr> \<in> set ?ds" by simp
  have m1: "\<lparr>DeliveryTag = 1, Body = []\<rparr> \<in> set ?ds" by simp
  have p2: "picky_handler [7] = Returns None" by (simp add: picky_handler_def)
  have p1: "picky_handler [] = Returns (Some ''empty body'')" by (simp add: picky_handler_def)
  show ?thesis
    using d m2 p2 p1
      consume_one_disposition [OF d m2, of "''orders''" "''w1-1''" picky_handler]
      consume_one_disposition [OF d m1, of "''orders''" "''w1-1''" picky_handler]
    by simp
qed

text \<open>
  C1 (what the code does). A handler that panics is recovered, but \<^verbatim>\<open>runWithRecovery\<close>
  then returns \<^verbatim>\<open>nil\<close>: each such delivery is acknowledged, not rejected. The loop does go
  on to the next delivery.
\<close>

theorem panic_is_acknowledged:
  "consume ''orders'' ''w1-1'' panicking_handler
       (Inr [\<lparr>DeliveryTag = 1, Body = [1]\<rparr>, \<lparr>DeliveryTag = 2, Body = [2]\<rparr>])
     = (None,
        [ChannelConsume ''orders'' ''w1-1'' False False False False,
         LogPanic ''boom'', DeliveryAck 1 False,
         LogPanic ''boom'', DeliveryAck 2 False])"
  by (simp add: consume_def Consume_def runWithRecovery_def panicking_handler_def)

subsection \<open>Properties of channel acquisition\<close>

text \<open>
  C4. Channel acquisition, by \<^verbatim>\<open>New\<close> and by every re-dial (both go through
  \<^verbatim>\<open>initChannel\<close>):
  \<^item> \<^verbatim>\<open>Init()\<close> is called exactly when the shared connection is absent or closed, and
    then before anything else;
  \<^item> when \<^verbatim>\<open>Init()\<close> fails the error is \<^verbatim>\<open>amqpd connection error: ...\<close>, no channel is
    opened or closed and the receiver is unchanged;
  \<^item> otherwise, on the connection that is live or has just been initialised, a
    previous channel that is still open is closed, and then, in every case, the
    replacement is opened: the calls made are exactly the \<^verbatim>\<open>Init()\<close> (if it was needed),
    the close (if there was an open channel) and the open, in this order;
  \<^item> when the open call fails the error is \<^verbatim>\<open>open channel error: ...\<close> and the receiver
    is unchanged; when it succeeds there is no error and the channel field holds the
    channel just opened;
  \<^item> \<^verbatim>\<open>New\<close> starts from no channel and returns the error of \<^verbatim>\<open>initChannel\<close>; on an error
    it returns no supervisor and starts no redial task, otherwise it returns the
    supervisor with its channel set and starts the redial task last.
  The last three conjuncts give the whole result of \<^verbatim>\<open>initChannel\<close> and of \<^verbatim>\<open>New\<close> in each
  of the three cases (\<^verbatim>\<open>Init()\<close> fails, the open call fails, nothing fails).
\<close>

theorem channel_acquisition:
  "(case initChannel env C ad of
      (res, C', ad', effs) \<Rightarrow>
        (ConnectionInit \<in> set effs \<longleftrightarrow> C = None \<or> conn_closed env)
      \<and> (ConnectionInit \<in> set effs \<longrightarrow> hd effs = ConnectionInit)
      \<and> (\<forall>e. (C = None \<or> conn_closed env) \<and> init_answer env = Inl e \<longrightarrow>
             res = Some (''amqpd connection error: '' @ e) \<and> effs = [ConnectionInit]
             \<and> ad' = ad \<and> C' = C)
      \<and> (\<forall>ch c. channel ad = Some ch \<and> \<not> chan_closed env \<and> ConnectionChannel c \<in> set effs \<longrightarrow>
             (\<exists>pre. effs = pre @ [ChannelClose ch, ConnectionChannel c]))
      \<and> (\<forall>e c. open_answer env = Inl e \<and> ConnectionChannel c \<in> set effs \<longrightarrow>
             res = Some (''open channel error: '' @ e))
      \<and> (res = None \<longrightarrow>
             (\<exists>ch c. open_answer env = Inr ch \<and> channel ad' = Some ch \<and> C' = Some c
                \<and> last effs = ConnectionChannel c))
      \<and> (res \<noteq> None \<longrightarrow> ad' = ad))
   \<and> (case New env C of
        ((made, err), C', effs) \<Rightarrow>
          err = fst (initChannel env C \<lparr>channel = None\<rparr>)
        \<and> (err \<noteq> None \<longrightarrow> made = None \<and> GoRedial \<notin> set effs)
        \<and> (err = None \<longrightarrow>
             (\<exists>ch. made = Some \<lparr>channel = Some ch\<rparr> \<and> open_answer env = Inr ch)
             \<and> last effs = GoRedial))
   \<and> (\<forall>e. (C = None \<or> conn_closed env) \<and> init_answer env = Inl e \<longrightarrow>
          initChannel env C ad
            = (Some (''amqpd connection error: '' @ e), C, ad, [ConnectionInit])
        \<and> New env C = ((None, Some (''amqpd connection error: '' @ e)), C, [ConnectionInit]))
   \<and> (\<forall>c e. (((C = None \<or> conn_closed env) \<and> init_answer env = Inr c)
                \<or> (C = Some c \<and> \<not> conn_closed env))
              \<and> open_answer env = Inl e \<longrightarrow>
          initChannel env C ad
            = (Some (''open channel error: '' @ e), Some c, ad,
               (if C = None \<or> conn_closed env then [ConnectionInit] else [])
               @ (case channel ad of
                    None \<Rightarrow> []
                  | Some previous \<Rightarrow> if chan_closed env then [] else [ChannelClose previous])
               @ [ConnectionChannel c])
        \<and> New env C
            = ((None, Some (''open channel error: '' @ e)), Some c,
               (if C = None \<or> conn_closed env then [ConnectionInit] else [])
               @ [ConnectionChannel c]))
   \<and> (\<forall>c ch. (((C = None \<or> conn_closed env) \<and> init_answer env = Inr c)
                 \<or> (C = Some c \<and> \<not> conn_closed env))
               \<and> open_answer env = Inr ch \<longrightarrow>
          initChannel env C ad
            = (None, Some c, ad\<lparr>channel := Some ch\<rparr>,
               (if C = None \<or> conn_closed env then [ConnectionInit] else [])
               @ (case channel ad of
                    None \<Rightarrow> []
                  | Some previous \<Rightarrow> if chan_closed env then [] else [ChannelClose previous])
               @ [ConnectionChannel c])
        \<and> New env C
            = ((Some \<lparr>channel = Some ch\<rparr>, None), Some c,
               (if C = None \<or> conn_closed env then [ConnectionInit] else [])
               @ [ConnectionChannel c, GoRedial]))"
  (is "?acquire \<and> ?construct \<and> ?init_fails \<and> ?open_fails \<and> ?succeeds")
proof (intro conjI)
  show ?acquire
    by (auto simp: initChannel_def Let_def split: sum.splits)
  show ?construct
    by (auto simp: New_def initChannel_def Let_def split: sum.splits)
  show ?init_fails
    by (auto simp: New_def initChannel_def Let_def)
  show ?open_fails
    by (auto simp: New_def initChannel_def Let_def split: option.splits)
  show ?succeeds
    by (auto simp: New_def initChannel_def Let_def split: option.splits)
qed

theorem channel_acquisition_witness:
  "channel \<lparr>channel = Some 7\<rparr> = Some 7 \<and> \<not> chan_closed reopen_env
   \<and> ConnectionChannel 1 \<in> set (snd (snd (snd (initChannel reopen_env (Some 1) \<lparr>channel = Some 7\<rparr>))))
   \<and> (\<exists>pre. snd (snd (snd (initChannel reopen_env (Some 1) \<lparr>channel = Some 7\<rparr>)))
         = pre @ [ChannelClose 7, ConnectionChannel 1])
   \<and> init_answer refused_env = Inl ''dial tcp: refused''
   \<and> fst (initChannel refused_env None \<lparr>channel = None\<rparr>)
       = Some (''amqpd connection error: '' @ ''dial tcp: refused'')
   \<and> fst (fst (New refused_env None)) = None
   \<and> conn_closed refused_env
   \<and> initChannel refused_env (Some 1) \<lparr>channel = Some 7\<rparr>
       = (Some ''amqpd connection error: dial tcp: refused'', Some 1, \<lparr>channel = Some 7\<rparr>,
          [ConnectionInit])
   \<and> New refused_env None
       = ((None, Some ''amqpd connection error: dial tcp: refused''), None, [ConnectionInit])
   \<and> \<not> conn_closed exhausted_env
   \<and> open_answer exhausted_env = Inl ''channel id space exhausted''
   \<and> initChannel exhausted_env (Some 1) \<lparr>channel = Some 7\<rparr>
       = (Some ''open channel error: channel id space exhausted'', Some 1, \<lparr>channel = Some 7\<rparr>,
          [ConnectionChannel 1])
   \<and> New exhausted_env (Some 1)
       = ((None, Some ''open channel error: channel id space exhausted''), Some 1,
          [ConnectionChannel 1])
   \<and> \<not> conn_closed reopen_env \<and> open_answer reopen_env = Inr 8
   \<and> initChannel reopen_env (Some 1) \<lparr>channel = Some 7\<rparr>
       = (None, Some 1, \<lparr>channel = Some 8\<rparr>, [ChannelClose 7, ConnectionChannel 1])
   \<and> New reopen_env (Some 1)
       = ((Some \<lparr>channel = Some 8\<rparr>, None), Some 1, [ConnectionChannel 1, GoRedial])
   \<and> conn_closed reinit_env \<and> init_answer reinit_env = Inr 2 \<and> open_answer reinit_env = Inr 9
   \<and> initChannel reinit_env (Some 1) \<lparr>channel = Some 7\<rparr>
       = (None, Some 2, \<lparr>channel = Some 9\<rparr>,
          [ConnectionInit, ChannelClose 7, ConnectionChannel 2])
   \<and> New reinit_env None
       = ((Some \<lparr>channel = Some 9\<rparr>, None), Some 2,
          [ConnectionInit, ConnectionChannel 2, GoRedial])"
proof -
  let ?ad7 = "\<lparr>channel = Some 7\<rparr>"
  have refused: "conn_closed refused_env" "init_answer refused_env = Inl ''dial tcp: refused''"
    by (simp_all add: refused_env_def)
  have exhausted: "\<not> conn_closed exhausted_env" "chan_closed exhausted_env"
      "open_answer exhausted_env = Inl ''channel id space exhausted''"
    by (simp_all add: exhausted_env_def)
  have reopen: "\<not> conn_closed reopen_env" "\<not> chan_closed reopen_env"
      "open_answer reopen_env = Inr 8"
    by (simp_all add: reopen_env_def)
  have reinit: "conn_closed reinit_env" "init_answer reinit_env = Inr 2"
      "\<not> chan_closed reinit_env" "open_answer reinit_env = Inr 9"
    by (simp_all add: reinit_env_def)
  have h1: "channel ?ad7 = Some 7" by simp
  from channel_acquisition [where env = refused_env and C = "Some 1" and ad = ?ad7] refused
  have a1: "initChannel refused_env (Some 1) ?ad7
       = (Some ''amqpd connection error: dial tcp: refused'', Some 1, ?ad7, [ConnectionInit])"
    by simp
  from channel_acquisition [where env = refused_env and C = None and ad = "\<lparr>channel = None\<rparr>"]
    refused
  have a2: "initChannel refused_env None \<lparr>channel = None\<rparr>
       = (Some ''amqpd connection error: dial tcp: refused'', None, \<lparr>channel = None\<rparr>,
          [ConnectionInit])"
    and a3: "New refused_env None
       = ((None, Some ''amqpd connection error: dial tcp: refused''), None, [ConnectionInit])"
    by simp_all
  from channel_acquisition [where env = exhausted_env and C = "Some 1" and ad = ?ad7] exhausted
  have b1: "initChannel exhausted_env (Some 1) ?ad7
       = (Some ''open channel error: channel id space exhausted'', Some 1, ?ad7,
          [ConnectionChannel 1])"
    and b2: "New exhausted_env (Some 1)
       = ((None, Some ''open channel error: channel id space exhausted''), Some 1,
          [ConnectionChannel 1])"
    by simp_all
  from channel_acquisition [where env = reopen_env and C = "Some 1" and ad = ?ad7] reopen
  have c1: "initChannel reopen_env (Some 1) ?ad7
       = (None, Some 1, \<lparr>channel = Some 8\<rparr>, [ChannelClose 7, ConnectionChannel 1])"
    and c2: "New reopen_env (Some 1)
       = ((Some \<lparr>channel = Some 8\<rparr>, None), Some 1, [ConnectionChannel 1, GoRedial])"
    by simp_all
  from channel_acquisition [where env = reinit_env and C = "Some 1" and ad = ?ad7] reinit
  have d1: "initChannel reinit_env (Some 1) ?ad7
       = (None, Some 2, \<lparr>channel = Some 9\<rparr>,
          [ConnectionInit, ChannelClose 7, ConnectionChannel 2])"
    by simp
  from channel_acquisition [where env = reinit_env and C = None and ad = ?ad7] reinit
  have d2: "New reinit_env None
       = ((Some \<lparr>channel = Some 9\<rparr>, None), Some 2,
          [ConnectionInit, ConnectionChannel 2, GoRedial])"
    by simp
  from channel_acquisition [where env = reopen_env and C = "Some 1" and ad = ?ad7] c1 h1 reopen
  have e1: "\<exists>pre. snd (snd (snd (initChannel reopen_env (Some 1) ?ad7)))
         = pre @ [ChannelClose 7, ConnectionChannel 1]"
    by simp
  from refused exhausted reopen reinit h1 a1 a2 a3 b1 b2 c1 c2 d1 d2 e1 show ?thesis
    by simp
qed

subsection \<open>Properties of the redial task\<close>

lemma retry_extend:
  "fst (retry as C ad) \<noteq> StillRetrying \<Longrightarrow> retry (as @ extra) C ad = retry as C ad"
proof (induction as arbitrary: C ad)
  case Nil
  then show ?case by simp
next
  case (Cons a as)
  show ?case
  proof (cases "stop_pending a")
    case True
    then show ?thesis by simp
  next
    case False
    obtain res C' ad' effs where i: "initChannel (answers a) C ad = (res, C', ad', effs)"
      by (cases "initChannel (answers a) C ad")
    show ?thesis
    proof (cases res)
      case None
      with False i show ?thesis by simp
    next
      case (Some err)
      with False i Cons.prems have "fst (retry as C' ad') \<noteq> StillRetrying"
        by (simp split: prod.splits)
      then have "retry (as @ extra) C' ad' = retry as C' ad'" by (rule Cons.IH)
      with False i Some show ?thesis by simp
    qed
  qed
qed

lemma redial_extend:
  "fst (redial ws C ad) = Returned \<Longrightarrow> redial (ws @ extra) C ad = redial ws C ad"
proof (induction ws arbitrary: C ad)
  case Nil
  then show ?case by simp
next
  case (Cons w ws)
  show ?case
  proof (cases "channel ad")
    case None
    then show ?thesis by simp
  next
    case ch: (Some ch0)
    show ?thesis
    proof (cases w)
      case StopSignal
      with ch show ?thesis by simp
    next
      case (ChannelClosed closeErr attempts)
      obtain r C' ad' effs where t: "retry attempts C ad = (r, C', ad', effs)"
        by (cases "retry attempts C ad")
      show ?thesis
      proof (cases r)
        case Stopped
        with ch ChannelClosed t show ?thesis by simp
      next
        case StillRetrying
        with ch ChannelClosed t show ?thesis by simp
      next
        case Reestablished
        have unfold: "redial (w # rest) C ad =
            (case redial rest C' ad' of
               (res, C'', ad'', later) \<Rightarrow>
                 (res, C'', ad'',
                  LogPrintf (''amqpd-redial: channel closing: '' @ closeErr) # effs @ later))"
          for rest
          using ch ChannelClosed t Reestablished by simp
        from Cons.prems have "fst (redial ws C' ad') = Returned"
          unfolding unfold by (simp split: prod.splits)
        then have "redial (ws @ extra) C' ad' = redial ws C' ad'" by (rule Cons.IH)
        then show ?thesis unfolding append_Cons unfold by simp
      qed
    qed
  qed
qed

text \<open>
  C8. The redial task, started with its channel set:
  \<^item> on the stop signal at the outer wait it returns, whatever would come later;
  \<^item> on a close notification it logs the cause and enters the retry loop; when that
    loop sees the stop signal the task returns, when it re-establishes the channel the
    task resumes the outer wait with what comes next;
  \<^item> every iteration of the retry loop first polls the stop signal and returns at once
    when it is pending, with no call of \<^verbatim>\<open>initChannel\<close>;
  \<^item> otherwise it calls \<^verbatim>\<open>initChannel\<close>: on an error it logs, sleeps 10 seconds and
    iterates again; on success it leaves the retry loop;
  \<^item> once the task has returned nothing observed later has any effect: no further
    reconnection is attempted.
\<close>

theorem redial_protocol:
  "(channel ad \<noteq> None \<longrightarrow> redial (StopSignal # ws) C ad = (Returned, C, ad, []))
 \<and> (channel ad \<noteq> None \<longrightarrow>
      (case retry as C ad of
         (Stopped, C', ad', effs) \<Rightarrow>
           redial (ChannelClosed closeErr as # ws) C ad =
             (Returned, C', ad', LogPrintf (''amqpd-redial: channel closing: '' @ closeErr) # effs)
       | (StillRetrying, C', ad', effs) \<Rightarrow>
           redial (ChannelClosed closeErr as # ws) C ad =
             (Retrying, C', ad', LogPrintf (''amqpd-redial: channel closing: '' @ closeErr) # effs)
       | (Reestablished, C', ad', effs) \<Rightarrow>
           (case redial ws C' ad' of
              (res, C'', ad'', later) \<Rightarrow>
                redial (ChannelClosed closeErr as # ws) C ad =
                  (res, C'', ad'',
                   LogPrintf (''amqpd-redial: channel closing: '' @ closeErr) # effs @ later))))
 \<and> (stop_pending a \<longrightarrow> retry (a # as) C ad = (Stopped, C, ad, []))
 \<and> (\<not> stop_pending a \<longrightarrow>
      (case initChannel (answers a) C ad of
         (Some err, C', ad', effs) \<Rightarrow>
           (case retry as C' ad' of
              (res, C'', ad'', later) \<Rightarrow>
                retry (a # as) C ad =
                  (res, C'', ad'',
                   LogPrintf ''amqpd-redial: reconnecting...'' # effs
                   @ [LogPrintf (''amqpd-redial: reconnect error: '' @ err), SleepSeconds 10]
                   @ later))
       | (None, C', ad', effs) \<Rightarrow>
           retry (a # as) C ad =
             (Reestablished, C', ad',
              LogPrintf ''amqpd-redial: reconnecting...'' # effs
              @ [LogPrintf ''amqpd-redial: channel re-established''])))
 \<and> (fst (retry as C ad) = Stopped \<longrightarrow> retry (as @ extra) C ad = retry as C ad)
 \<and> (fst (redial ws C ad) = Returned \<longrightarrow> redial (ws @ later_wakes) C ad = redial ws C ad)"
proof (intro conjI impI)
  assume "fst (retry as C ad) = Stopped"
  then show "retry (as @ extra) C ad = retry as C ad" by (simp add: retry_extend)
next
  assume "fst (redial ws C ad) = Returned"
  then show "redial (ws @ later_wakes) C ad = redial ws C ad" by (rule redial_extend)
qed (auto split: prod.splits option.splits retry_result.splits)

theorem redial_protocol_witness:
  "channel \<lparr>channel = Some 7\<rparr> \<noteq> None
   \<and> \<not> stop_pending try_exhausted \<and> \<not> stop_pending try_reopen \<and> stop_pending try_stopped
   \<and> retry [try_stopped, try_reopen] (Some 1) \<lparr>channel = Some 7\<rparr>
       = (Stopped, Some 1, \<lparr>channel = Some 7\<rparr>, [])
   \<and> redial [ChannelClosed ''EOF'' [try_exhausted, try_reopen], StopSignal]
         (Some 1) \<lparr>channel = Some 7\<rparr>
       = (Returned, Some 1, \<lparr>channel = Some 8\<rparr>,
          [LogPrintf ''amqpd-redial: channel closing: EOF'',
           LogPrintf ''amqpd-redial: reconnecting...'',
           ConnectionChannel 1,
           LogPrintf ''amqpd-redial: reconnect error: open channel error: channel id space exhausted'',
           SleepSeconds 10,
           LogPrintf ''amqpd-redial: reconnecting...'',
           ChannelClose 7, ConnectionChannel 1,
           LogPrintf ''amqpd-redial: channel re-established''])
   \<and> redial ([ChannelClosed ''EOF'' [try_exhausted, try_reopen], StopSignal]
              @ [ChannelClosed ''EOF'' [try_reopen]]) (Some 1) \<lparr>channel = Some 7\<rparr>
       = redial [ChannelClosed ''EOF'' [try_exhausted, try_reopen], StopSignal]
           (Some 1) \<lparr>channel = Some 7\<rparr>
   \<and> retry ([try_stopped] @ [try_reopen]) (Some 1) \<lparr>channel = Some 7\<rparr>
       = retry [try_stopped] (Some 1) \<lparr>channel = Some 7\<rparr>"
proof -
  let ?ad7 = "\<lparr>channel = Some 7\<rparr>"
  let ?ad8 = "\<lparr>channel = Some 8\<rparr>"
  have ch: "channel ?ad7 \<noteq> None" "channel ?ad8 \<noteq> None" by simp_all
  have sp: "\<not> stop_pending try_exhausted" "\<not> stop_pending try_reopen" "stop_pending try_stopped"
    by (simp_all add: try_exhausted_def try_reopen_def try_stopped_def)
  have e1: "initChannel (answers try_exhausted) (Some 1) ?ad7
      = (Some ''open channel error: channel id space exhausted'', Some 1, ?ad7,
         [ConnectionChannel 1])"
    by (simp add: initChannel_def try_exhausted_def exhausted_env_def)
  have e2: "initChannel (answers try_reopen) (Some 1) ?ad7
      = (None, Some 1, ?ad8, [ChannelClose 7, ConnectionChannel 1])"
    by (simp add: initChannel_def try_reopen_def reopen_env_def)
  have nil: "retry [] (Some 1) ?ad8 = (StillRetrying, Some 1, ?ad8, [])" by simp
  from redial_protocol [where ad = "?ad8" and C = "Some 1" and ws = "[]" and as = "[]"
      and a = try_stopped] ch
  have i: "redial [StopSignal] (Some 1) ?ad8 = (Returned, Some 1, ?ad8, [])"
    by blast
  from redial_protocol [where ad = "?ad7" and C = "Some 1" and ws = "[]" and as = "[try_reopen]"
      and a = try_stopped] sp
  have ii: "retry [try_stopped, try_reopen] (Some 1) ?ad7 = (Stopped, Some 1, ?ad7, [])"
    by blast
  from redial_protocol [where ad = "?ad7" and C = "Some 1" and ws = "[]" and as = "[]"
      and a = try_reopen] sp e2
  have iii: "retry [try_reopen] (Some 1) ?ad7
      = (Reestablished, Some 1, ?ad8,
         [LogPrintf ''amqpd-redial: reconnecting...'', ChannelClose 7, ConnectionChannel 1,
          LogPrintf ''amqpd-redial: channel re-established''])"
    by simp
  from redial_protocol [where ad = "?ad7" and C = "Some 1" and ws = "[]" and as = "[try_reopen]"
      and a = try_exhausted] sp e1 iii
  have iv: "retry [try_exhausted, try_reopen] (Some 1) ?ad7
      = (Reestablished, Some 1, ?ad8,
         [LogPrintf ''amqpd-redial: reconnecting...'',
          ConnectionChannel 1,
          LogPrintf ''amqpd-redial: reconnect error: open channel error: channel id space exhausted'',
          SleepSeconds 10,
          LogPrintf ''amqpd-redial: reconnecting...'',
          ChannelClose 7, ConnectionChannel 1,
          LogPrintf ''amqpd-redial: channel re-established''])"
    by simp
  from redial_protocol [where ad = "?ad7" and C = "Some 1" and ws = "[StopSignal]"
      and as = "[try_exhausted, try_reopen]" and closeErr = "''EOF''" and a = try_stopped] ch iv i
  have v: "redial [ChannelClosed ''EOF'' [try_exhausted, try_reopen], StopSignal] (Some 1) ?ad7
      = (Returned, Some 1, ?ad8,
         [LogPrintf ''amqpd-redial: channel closing: EOF'',
          LogPrintf ''amqpd-redial: reconnecting...'',
          ConnectionChannel 1,
          LogPrintf ''amqpd-redial: reconnect error: open channel error: channel id space exhausted'',
          SleepSeconds 10,
          LogPrintf ''amqpd-redial: reconnecting...'',
          ChannelClose 7, ConnectionChannel 1,
          LogPrintf ''amqpd-redial: channel re-established''])"
    by simp
  from redial_protocol [where ad = "?ad7" and C = "Some 1"
      and ws = "[ChannelClosed ''EOF'' [try_exhausted, try_reopen], StopSignal]"
      and as = "[]" and a = try_stopped and later_wakes = "[ChannelClosed ''EOF'' [try_reopen]]"] v
  have vi: "redial ([ChannelClosed ''EOF'' [try_exhausted, try_reopen], StopSignal]
              @ [ChannelClosed ''EOF'' [try_reopen]]) (Some 1) ?ad7
       = redial [ChannelClosed ''EOF'' [try_exhausted, try_reopen], StopSignal] (Some 1) ?ad7"
    by simp
  have st: "fst (retry [try_stopped] (Some 1) ?ad7) = Stopped"
    using sp by simp
  from redial_protocol [where ad = "?ad7" and C = "Some 1" and ws = "[]"
      and as = "[try_stopped]" and a = try_stopped and extra = "[try_reopen]"] st
  have vii: "retry ([try_stopped] @ [try_reopen]) (Some 1) ?ad7 = retry [try_stopped] (Some 1) ?ad7"
    by blast
  from ch sp ii v vi vii show ?thesis by blast
qed

subsection \<open>Properties of the per-binding loop\<close>

lemma run_extend:
  "fst (run csr e rs) = Exited \<Longrightarrow> run csr e (rs @ extra) = run csr e rs"
proof (induction rs)
  case Nil
  then show ?case by simp
next
  case (Cons r rs)
  show ?case
  proof (cases "head_running r")
    case False
    then show ?thesis by simp
  next
    case True
    obtain err effs where c: "consume (Queue e) csr (Handler e) (answer r) = (err, effs)"
      by (cases "consume (Queue e) csr (Handler e) (answer r)")
    show ?thesis
    proof (cases "err = None \<and> \<not> after_running r")
      case True
      with \<open>head_running r\<close> c show ?thesis by simp
    next
      case False
      with True c Cons.prems have "fst (run csr e rs) = Exited"
        by (auto split: prod.splits option.splits)
      then have "run csr e (rs @ extra) = run csr e rs" by (rule Cons.IH)
      with True c False show ?thesis by (auto split: option.splits)
    qed
  qed
qed

lemma run_exits_on_false_flag:
  "\<exists>r \<in> set rs. \<not> head_running r \<Longrightarrow> fst (run csr e rs) = Exited"
proof (induction rs)
  case Nil
  then show ?case by simp
next
  case (Cons r rs)
  show ?case
  proof (cases "head_running r")
    case False
    then show ?thesis by simp
  next
    case True
    with Cons.prems have "\<exists>r \<in> set rs. \<not> head_running r" by auto
    then have "fst (run csr e rs) = Exited" by (rule Cons.IH)
    with True show ?thesis by (auto split: prod.splits option.splits)
  qed
qed

lemma run_exit_cause:
  "fst (run csr e rs) = Exited \<Longrightarrow>
     \<exists>r \<in> set rs. \<not> head_running r \<or> (\<not> isl (answer r) \<and> \<not> after_running r)"
proof (induction rs)
  case Nil
  then show ?case by simp
next
  case (Cons x xs)
  then show ?case
    by (auto simp: consume_def split: if_splits prod.splits option.splits sum.splits)
qed

lemma drain_no_consume: "filter is_consume (drain h ds) = []"
  by (induction ds) (auto simp: runWithRecovery_def split: outcome.splits option.splits)

lemma consume_one_attempt:
  "filter is_consume (snd (consume q c h a)) = [Consume q c]"
  by (auto simp: consume_def Consume_def drain_no_consume split: sum.splits)

lemma run_attempts_bounded:
  "length (filter is_consume (snd (run csr e rs))) \<le> length rs"
proof (induction rs)
  case Nil
  then show ?case by simp
next
  case (Cons r rs)
  obtain err effs where c: "consume (Queue e) csr (Handler e) (answer r) = (err, effs)"
    by (cases "consume (Queue e) csr (Handler e) (answer r)")
  have one: "length (filter is_consume effs) = 1"
    using consume_one_attempt [of "Queue e" csr "Handler e" "answer r"] c by simp
  obtain res later where l: "run csr e rs = (res, later)"
    by (cases "run csr e rs")
  from Cons.IH l have "length (filter is_consume later) \<le> length rs" by simp
  with c one l show ?case by (auto split: option.splits)
qed

text \<open>
  C7. One iteration of the loop of \<^verbatim>\<open>run\<close>, and the loop as a whole:
  \<^item> when the flag is false at the loop condition the function returns and makes no call;
  \<^item> when the stream cannot be obtained it logs the error, sleeps 15 seconds, and goes
    back to the loop condition;
  \<^item> when the stream has ended without an error it reads the flag again: if it is
    still true it sleeps 15 seconds and goes back to the loop condition (where a true
    flag leads to the next call of \<^verbatim>\<open>consume\<close>), if it is false the function returns;
  \<^item> once the function has returned, nothing observed later has any effect: there is
    no further consume attempt; it returns only on a flag read as false, and it does
    return when the flag is false at some loop condition;
  \<^item> it calls \<^verbatim>\<open>channel.Consume\<close> at most once per iteration.
\<close>

theorem run_loop:
  "(\<not> head_running r \<longrightarrow> run csr e (r # rest) = (Exited, []))
 \<and> (\<forall>err. head_running r \<and> answer r = Inl err \<longrightarrow>
       (case run csr e rest of
          (res, later) \<Rightarrow>
            run csr e (r # rest) =
              (res,
               [Consume (Queue e) csr,
                LogPrintf (''amqpd-consumer: run error: amqpd consume err: '' @ err @ [CHR 0x0A]),
                SleepSeconds 15] @ later)))
 \<and> (\<forall>ds. head_running r \<and> answer r = Inr ds \<and> after_running r \<longrightarrow>
       (case run csr e rest of
          (res, later) \<Rightarrow>
            run csr e (r # rest) =
              (res, Consume (Queue e) csr # drain (Handler e) ds @ [SleepSeconds 15] @ later)))
 \<and> (\<forall>ds. head_running r \<and> answer r = Inr ds \<and> \<not> after_running r \<longrightarrow>
       run csr e (r # rest) = (Exited, Consume (Queue e) csr # drain (Handler e) ds))
 \<and> (fst (run csr e rs) = Exited \<longrightarrow> run csr e (rs @ extra) = run csr e rs)
 \<and> (fst (run csr e rs) = Exited \<longrightarrow>
       (\<exists>r \<in> set rs. \<not> head_running r \<or> (\<not> isl (answer r) \<and> \<not> after_running r)))
 \<and> ((\<exists>r \<in> set rs. \<not> head_running r) \<longrightarrow> fst (run csr e rs) = Exited)
 \<and> length (filter is_consume (snd (run csr e rs))) \<le> length rs"
proof (intro conjI impI allI)
  assume "fst (run csr e rs) = Exited"
  then show "run csr e (rs @ extra) = run csr e rs" by (rule run_extend)
next
  assume "fst (run csr e rs) = Exited"
  then show "\<exists>r \<in> set rs. \<not> head_running r \<or> (\<not> isl (answer r) \<and> \<not> after_running r)"
    by (rule run_exit_cause)
next
  assume "\<exists>r \<in> set rs. \<not> head_running r"
  then show "fst (run csr e rs) = Exited" by (rule run_exits_on_false_flag)
next
  show "length (filter is_consume (snd (run csr e rs))) \<le> length rs"
    by (rule run_attempts_bounded)
qed (auto simp: consume_def split: prod.splits)

theorem run_loop_witness:
  "\<not> head_running round_off
   \<and> head_running round_refused \<and> answer round_refused = Inl ''channel/connection is not open''
   \<and> head_running round_two \<and> after_running round_two
   \<and> head_running round_last \<and> answer round_last = Inr [] \<and> \<not> after_running round_last
   \<and> run ''w1-1'' orders_entry [round_refused, round_two, round_off, round_two]
       = (Exited,
          [Consume ''orders'' ''w1-1'',
           LogPrintf (''amqpd-consumer: run error: amqpd consume err: channel/connection is not open''
                      @ [CHR 0x0A]),
           SleepSeconds 15,
           Consume ''orders'' ''w1-1'',
           DeliveryReject 1 True, DeliveryAck 2 False,
           SleepSeconds 15])
   \<and> run ''w1-1'' orders_entry [round_last, round_two] = (Exited, [Consume ''orders'' ''w1-1''])
   \<and> run ''w1-1'' orders_entry ([round_off] @ [round_two]) = run ''w1-1'' orders_entry [round_off]
   \<and> (\<exists>r \<in> set [round_two, round_off]. \<not> head_running r)
   \<and> fst (run ''w1-1'' orders_entry [round_two, round_off]) = Exited"
proof -
  let ?e = orders_entry
  have q: "Queue ?e = ''orders''" "Handler ?e = picky_handler"
    by (simp_all add: orders_entry_def)
  have off: "\<not> head_running round_off" by (simp add: round_off_def)
  have refused: "head_running round_refused"
      "answer round_refused = Inl ''channel/connection is not open''"
    by (simp_all add: round_refused_def)
  have two: "head_running round_two" "after_running round_two"
      "answer round_two = Inr [\<lparr>DeliveryTag = 1, Body = []\<rparr>, \<lparr>DeliveryTag = 2, Body = [7]\<rparr>]"
    by (simp_all add: round_two_def)
  have last: "head_running round_last" "answer round_last = Inr []" "\<not> after_running round_last"
    by (simp_all add: round_last_def)
  have d: "drain picky_handler [\<lparr>DeliveryTag = 1, Body = []\<rparr>, \<lparr>DeliveryTag = 2, Body = [7]\<rparr>]
             = [DeliveryReject 1 True, DeliveryAck 2 False]"
    by (simp add: runWithRecovery_def picky_handler_def)
  from run_loop [where r = round_off and csr = "''w1-1''" and e = ?e and rest = "[round_two]"
      and rs = "[]"] off
  have i: "run ''w1-1'' ?e [round_off, round_two] = (Exited, [])"
    by blast
  from run_loop [where r = round_two and csr = "''w1-1''" and e = ?e
      and rest = "[round_off, round_two]" and rs = "[]"] two i q d
  have ii: "run ''w1-1'' ?e [round_two, round_off, round_two]
      = (Exited, [Consume ''orders'' ''w1-1'', DeliveryReject 1 True, DeliveryAck 2 False,
                  SleepSeconds 15])"
    by simp
  from run_loop [where r = round_refused and csr = "''w1-1''" and e = ?e
      and rest = "[round_two, round_off, round_two]" and rs = "[]"] refused ii q
  have iii: "run ''w1-1'' ?e [round_refused, round_two, round_off, round_two]
       = (Exited,
          [Consume ''orders'' ''w1-1'',
           LogPrintf (''amqpd-consumer: run error: amqpd consume err: channel/connection is not open''
                      @ [CHR 0x0A]),
           SleepSeconds 15,
           Consume ''orders'' ''w1-1'',
           DeliveryReject 1 True, DeliveryAck 2 False,
           SleepSeconds 15])"
    by simp
  from run_loop [where r = round_last and csr = "''w1-1''" and e = ?e
      and rest = "[round_two]" and rs = "[]"] last q
  have iv: "run ''w1-1'' ?e [round_last, round_two] = (Exited, [Consume ''orders'' ''w1-1''])"
    by simp
  have ex: "fst (run ''w1-1'' ?e [round_off]) = Exited" using off by simp
  from run_loop [where r = round_off and csr = "''w1-1''" and e = ?e and rest = "[]"
      and rs = "[round_off]" and extra = "[round_two]"] ex
  have v: "run ''w1-1'' ?e ([round_off] @ [round_two]) = run ''w1-1'' ?e [round_off]"
    by blast
  have some: "\<exists>r \<in> set [round_two, round_off]. \<not> head_running r" using off by simp
  from run_loop [where r = round_off and csr = "''w1-1''" and e = ?e and rest = "[]"
      and rs = "[round_two, round_off]"] some
  have vi: "fst (run ''w1-1'' ?e [round_two, round_off]) = Exited"
    by blast
  from off refused two last iii iv v some vi show ?thesis by blast
qed

subsection \<open>Properties of the supervisor's steps\<close>

lemma decimal_small: "n < 10 \<Longrightarrow> decimal n = [digit_char n]"
  by (simp add: decimal.simps)

lemma FormatUint_1: "FormatUint 1 = ''1''"
  by (simp add: FormatUint_def decimal_small digit_char_def)

lemma FormatUint_2: "FormatUint 2 = ''2''"
  by (simp add: FormatUint_def decimal_small digit_char_def)

lemma exec_append: "exec (as @ bs) w = exec bs (exec as w)"
  by (induction as arbitrary: w) auto

lemma foldl_launch:
  "set ks \<subseteq> dom (entries w) \<Longrightarrow>
     foldl launch w ks =
       w\<lparr>jobWaiter := jobWaiter w + int (length ks),
         loops := loops w @ map (\<lambda>k. (k, the (entries w k))) ks,
         trace := trace w @ concat (map (\<lambda>k. [WaitGroupAdd, LoopLaunched k]) ks)\<rparr>"
proof (induction ks arbitrary: w)
  case Nil
  then show ?case by simp
next
  case (Cons k ks)
  then obtain e where e: "entries w k = Some e" by auto
  let ?w = "launch w k"
  have same: "entries ?w = entries w" using e by (simp add: launch_def)
  with Cons.prems have "set ks \<subseteq> dom (entries ?w)" by simp
  from Cons.IH [OF this] show ?case
    using e by (simp add: launch_def)
qed

lemma Start_frame:
  "entries (Start ks w) = entries w \<and> consumerSeq (Start ks w) = consumerSeq w
   \<and> shutdowns (Start ks w) = shutdowns w \<and> redial_alive (Start ks w) = redial_alive w"
proof -
  have "entries (foldl launch v ks) = entries v \<and> consumerSeq (foldl launch v ks) = consumerSeq v
   \<and> shutdowns (foldl launch v ks) = shutdowns v \<and> redial_alive (foldl launch v ks) = redial_alive v
   \<and> running (foldl launch v ks) = running v" for v
    by (induction ks arbitrary: v) (auto simp: launch_def split: option.splits)
  then show ?thesis by (simp add: Start_def)
qed

lemma Start_launches:
  assumes "range_order ks w" and "\<not> running w"
  shows "Start ks w =
       w\<lparr>running := True,
         jobWaiter := jobWaiter w + int (length ks),
         loops := loops w @ map (\<lambda>k. (k, the (entries w k))) ks,
         trace := trace w @ concat (map (\<lambda>k. [WaitGroupAdd, LoopLaunched k]) ks)\<rparr>"
proof -
  have "set ks \<subseteq> dom (entries (w\<lparr>running := True\<rparr>))"
    using assms(1) by (simp add: range_order_def)
  from foldl_launch [OF this] assms(2) show ?thesis
    by (simp add: Start_def)
qed

lemma shutdown_step_frame:
  "entries (shutdown_step h ks w) = entries w \<and> consumerSeq (shutdown_step h ks w) = consumerSeq w
   \<and> running (shutdown_step h ks w) = running w \<and> jobWaiter (shutdown_step h ks w) = jobWaiter w
   \<and> loops (shutdown_step h ks w) = loops w
   \<and> length (shutdowns (shutdown_step h ks w)) = length (shutdowns w)"
  by (simp add: shutdown_step_def set_pc_def emit_def split: shutdown_pc.splits list.splits)

lemmas world_defs =
  new_consumer_def AddFunc_def FormatUint_1 FormatUint_2 range_order_def Start_def launch_def
  Stop_def shutdown_step_def set_pc_def emit_def loop_returns_def resolved_def

text \<open>
  C6. \<^verbatim>\<open>Start\<close> on a running supervisor changes nothing. Otherwise it sets the flag and,
  for the \<open>N\<close> bindings of the registry, starts \<open>N\<close> loop goroutines, one per binding with
  that binding's identity and entry, adds \<open>N\<close> to the counter, and calls \<^verbatim>\<open>Add(1)\<close> right
  before it starts each goroutine.
\<close>

theorem Start_launches_one_loop_per_binding:
  assumes "range_order order w"
  shows "(running w \<longrightarrow> Start order w = w)
       \<and> (\<not> running w \<longrightarrow>
            running (Start order w)
          \<and> loops (Start order w) = loops w @ map (\<lambda>k. (k, the (entries w k))) order
          \<and> length (loops (Start order w)) = length (loops w) + card (dom (entries w))
          \<and> (\<forall>k. count_list (map fst (drop (length (loops w)) (loops (Start order w)))) k
                  = (if k \<in> dom (entries w) then 1 else 0))
          \<and> jobWaiter (Start order w) = jobWaiter w + int (card (dom (entries w)))
          \<and> trace (Start order w)
              = trace w @ concat (map (\<lambda>k. [WaitGroupAdd, LoopLaunched k]) order)
          \<and> entries (Start order w) = entries w)"
proof (intro conjI impI)
  assume "running w"
  then show "Start order w = w" by (simp add: Start_def)
next
  assume nr: "\<not> running w"
  note s = Start_launches [OF assms nr]
  have d: "distinct order" and k: "set order = dom (entries w)"
    using assms by (simp_all add: range_order_def)
  have len: "length order = card (dom (entries w))"
    using d k distinct_card by fastforce
  show "running (Start order w)" by (simp add: s)
  show "loops (Start order w) = loops w @ map (\<lambda>k. (k, the (entries w k))) order"
    by (simp add: s)
  show "length (loops (Start order w)) = length (loops w) + card (dom (entries w))"
    by (simp add: s len)
  show "\<forall>k. count_list (map fst (drop (length (loops w)) (loops (Start order w)))) k
                  = (if k \<in> dom (entries w) then 1 else 0)"
  proof
    fix c
    have "map fst (drop (length (loops w)) (loops (Start order w))) = order"
      by (simp add: s comp_def)
    moreover have "count_list order c = (if c \<in> set order then 1 else 0)"
      using d by (induction order) auto
    ultimately show "count_list (map fst (drop (length (loops w)) (loops (Start order w)))) c
                  = (if c \<in> dom (entries w) then 1 else 0)"
      using k by simp
  qed
  show "jobWaiter (Start order w) = jobWaiter w + int (card (dom (entries w)))"
    by (simp add: s len)
  show "trace (Start order w) = trace w @ concat (map (\<lambda>k. [WaitGroupAdd, LoopLaunched k]) order)"
    by (simp add: s)
  show "entries (Start order w) = entries w" by (simp add: s)
qed

theorem Start_launches_one_loop_per_binding_witness:
  "range_order [''w1-1'', ''w2-2'']
     (exec [CallAddFunc ''orders'' ''w1'' ok_handler, CallAddFunc ''events'' ''w2'' ok_handler]
        (new_consumer 0))
 \<and> \<not> running (exec [CallAddFunc ''orders'' ''w1'' ok_handler,
                     CallAddFunc ''events'' ''w2'' ok_handler] (new_consumer 0))
 \<and> trace (Start [''w1-1'', ''w2-2'']
      (exec [CallAddFunc ''orders'' ''w1'' ok_handler, CallAddFunc ''events'' ''w2'' ok_handler]
        (new_consumer 0)))
     = [WaitGroupAdd, LoopLaunched ''w1-1'', WaitGroupAdd, LoopLaunched ''w2-2'']
 \<and> length (loops (Start [''w1-1'', ''w2-2'']
      (exec [CallAddFunc ''orders'' ''w1'' ok_handler, CallAddFunc ''events'' ''w2'' ok_handler]
        (new_consumer 0)))) = 2
 \<and> jobWaiter (Start [''w1-1'', ''w2-2'']
      (exec [CallAddFunc ''orders'' ''w1'' ok_handler, CallAddFunc ''events'' ''w2'' ok_handler]
        (new_consumer 0))) = 2
 \<and> running (Start [''w1-1'', ''w2-2''] (exec [CallAddFunc ''orders'' ''w1'' ok_handler,
      CallAddFunc ''events'' ''w2'' ok_handler] (new_consumer 0)))
 \<and> Start [''w1-1'', ''w2-2'']
      (Start [''w1-1'', ''w2-2''] (exec [CallAddFunc ''orders'' ''w1'' ok_handler,
         CallAddFunc ''events'' ''w2'' ok_handler] (new_consumer 0)))
     = Start [''w1-1'', ''w2-2''] (exec [CallAddFunc ''orders'' ''w1'' ok_handler,
         CallAddFunc ''events'' ''w2'' ok_handler] (new_consumer 0))"
proof -
  let ?w = "exec [CallAddFunc ''orders'' ''w1'' ok_handler, CallAddFunc ''events'' ''w2'' ok_handler]
              (new_consumer 0)"
  let ?order = "[''w1-1'', ''w2-2'']"
  have o: "range_order ?order ?w" by (simp add: world_defs) auto
  have n: "\<not> running ?w" by (simp add: world_defs)
  have c: "card (dom (entries ?w)) = 2" by (simp add: world_defs)
  have t: "trace ?w = []" "loops ?w = []" "jobWaiter ?w = 0" by (simp_all add: world_defs)
  have e: "entries (Start ?order ?w) = entries ?w"
    using Start_launches_one_loop_per_binding [OF o] n by blast
  then have o': "range_order ?order (Start ?order ?w)" using o by (simp add: range_order_def)
  from Start_launches_one_loop_per_binding [OF o] n
  have a: "running (Start ?order ?w)"
    and b: "length (loops (Start ?order ?w)) = length (loops ?w) + card (dom (entries ?w))"
    and d: "jobWaiter (Start ?order ?w) = jobWaiter ?w + int (card (dom (entries ?w)))"
    and f: "trace (Start ?order ?w)
              = trace ?w @ concat (map (\<lambda>k. [WaitGroupAdd, LoopLaunched k]) ?order)"
    by blast+
  from Start_launches_one_loop_per_binding [OF o'] a
  have g: "Start ?order (Start ?order ?w) = Start ?order ?w" by blast
  from o n a b d f g c t show ?thesis by simp
qed

subsection \<open>The shutdown sequence\<close>

lemma live_loops_append: "live_loops (xs @ ys) = live_loops xs + live_loops ys"
  by (induction xs rule: live_loops.induct) auto

lemma live_loops_launches:
  "live_loops (concat (map (\<lambda>k. [WaitGroupAdd, LoopLaunched k]) ks)) = int (length ks)"
  by (induction ks) auto

lemma cancelled_append: "cancelled h (xs @ ys) = cancelled h xs \<union> cancelled h ys"
  by (auto simp: cancelled_def)

lemma cancelled_mono: "cancelled h xs \<subseteq> cancelled h (xs @ ys)"
  by (auto simp: cancelled_def)

lemma waited_append: "waited K h tr \<Longrightarrow> waited K h (tr @ evs)"
  unfolding waited_def by (metis append.assoc append_Cons)

lemma closed_after_wait_append: "closed_after_wait K h tr \<Longrightarrow> closed_after_wait K h (tr @ evs)"
  unfolding closed_after_wait_def by (metis append.assoc append_Cons)

lemma shutdown_complete_append: "shutdown_complete K h tr \<Longrightarrow> shutdown_complete K h (tr @ evs)"
  unfolding shutdown_complete_def by (metis append.assoc append_Cons)

lemma waited_intro:
  "K \<subseteq> cancelled h tr \<Longrightarrow> live_loops tr = 0 \<Longrightarrow> waited K h (tr @ [WaitReturned h])"
  unfolding waited_def by blast

lemma closed_after_wait_intro:
  "waited K h tr \<Longrightarrow> closed_after_wait K h (tr @ [CliClose h])"
  unfolding waited_def closed_after_wait_def by (metis append.assoc append_Cons)

lemma shutdown_complete_intro:
  "closed_after_wait K h tr \<Longrightarrow> shutdown_complete K h (tr @ [Resolved h])"
  unfolding closed_after_wait_def shutdown_complete_def by (metis append.assoc append_Cons)

lemma phase_inv_append:
  "phase_inv K h pc tr \<Longrightarrow> Resolved h \<notin> set evs \<Longrightarrow> phase_inv K h pc (tr @ evs)"
  by (cases pc)
     (auto simp: phase_inv_def cancelled_append
           intro: waited_append closed_after_wait_append shutdown_complete_append)


lemma shutdown_inv_other_step:
  assumes "shutdown_inv K h w" and "h' \<noteq> h" and "h' < length (shutdowns w)"
  shows "shutdown_inv K h (shutdown_step h' ks w)"
proof -
  from assms(1) have h: "h < length (shutdowns w)" and k: "K \<subseteq> dom (entries w)"
    and j: "jobWaiter w = live_loops (trace w)"
    and p: "phase_inv K h (shutdowns w ! h) (trace w)"
    by (simp_all add: shutdown_inv_def)
  have same: "(shutdowns w)[h' := shutdowns w ! h'] = shutdowns w" by simp
  obtain evs pc where t: "trace (shutdown_step h' ks w) = trace w @ evs"
    and r: "Resolved h \<notin> set evs" and l: "live_loops evs = 0"
    and s: "shutdowns (shutdown_step h' ks w) = (shutdowns w)[h' := pc]"
  proof (cases "shutdowns w ! h'")
    case AtRange
    show ?thesis
      by (rule that [of "[]" "if range_order ks w then InRange ks else AtRange"])
         (use AtRange same in \<open>auto simp: shutdown_step_def set_pc_def\<close>)
  next
    case (InRange rest)
    show ?thesis
    proof (cases rest)
      case Nil
      show ?thesis
        by (rule that [of "[]" AtWait])
           (use InRange Nil in \<open>auto simp: shutdown_step_def set_pc_def\<close>)
    next
      case (Cons c cs)
      show ?thesis
        by (rule that [of "[CancelCall h' c]" "InRange cs"])
           (use InRange Cons in \<open>auto simp: shutdown_step_def set_pc_def emit_def\<close>)
    qed
  next
    case AtWait
    show ?thesis
    proof (cases "jobWaiter w = 0")
      case True
      show ?thesis
        by (rule that [of "[WaitReturned h']" AtClose])
           (use AtWait True in \<open>auto simp: shutdown_step_def set_pc_def emit_def\<close>)
    next
      case False
      show ?thesis
        by (rule that [of "[]" AtWait])
           (use AtWait False same in \<open>auto simp: shutdown_step_def\<close>)
    qed
  next
    case AtClose
    show ?thesis
    proof (cases "redial_alive w")
      case True
      show ?thesis
        by (rule that [of "[CliClose h']" AtCancel])
           (use AtClose True in \<open>auto simp: shutdown_step_def set_pc_def emit_def\<close>)
    next
      case False
      show ?thesis
        by (rule that [of "[]" AtClose])
           (use AtClose False same in \<open>auto simp: shutdown_step_def\<close>)
    qed
  next
    case AtCancel
    show ?thesis
      by (rule that [of "[Resolved h']" Ended])
         (use AtCancel assms(2) in \<open>auto simp: shutdown_step_def set_pc_def emit_def\<close>)
  next
    case Ended
    show ?thesis
      by (rule that [of "[]" Ended])
         (use Ended same in \<open>auto simp: shutdown_step_def\<close>)
  qed
  have "phase_inv K h (shutdowns (shutdown_step h' ks w) ! h) (trace (shutdown_step h' ks w))"
    using phase_inv_append [OF p r] t s assms(2) by simp
  then show ?thesis
    using h k j t l s shutdown_step_frame [of h' ks w]
    by (simp add: shutdown_inv_def live_loops_append)
qed

lemma shutdown_inv_own_step:
  assumes "shutdown_inv K h w"
  shows "shutdown_inv K h (shutdown_step h ks w)"
proof -
  from assms have h: "h < length (shutdowns w)" and k: "K \<subseteq> dom (entries w)"
    and j: "jobWaiter w = live_loops (trace w)"
    and p: "phase_inv K h (shutdowns w ! h) (trace w)"
    by (simp_all add: shutdown_inv_def)
  show ?thesis
  proof (cases "shutdowns w ! h")
    case AtRange
    with h k j p show ?thesis
      by (auto simp: shutdown_inv_def shutdown_step_def set_pc_def phase_inv_def range_order_def)
  next
    case (InRange rest)
    with h k j p show ?thesis
      by (cases rest)
         (auto simp: shutdown_inv_def shutdown_step_def set_pc_def emit_def phase_inv_def
                     cancelled_def live_loops_append)
  next
    case AtWait
    with h k j p show ?thesis
      by (auto simp: shutdown_inv_def shutdown_step_def set_pc_def emit_def phase_inv_def
                     live_loops_append intro: waited_intro)
  next
    case AtClose
    with h k j p show ?thesis
      by (auto simp: shutdown_inv_def shutdown_step_def set_pc_def emit_def phase_inv_def
                     live_loops_append intro: closed_after_wait_intro)
  next
    case AtCancel
    with h k j p show ?thesis
      by (auto simp: shutdown_inv_def shutdown_step_def set_pc_def emit_def phase_inv_def
                     live_loops_append intro: shutdown_complete_intro)
  next
    case Ended
    with assms show ?thesis by (simp add: shutdown_step_def)
  qed
qed

lemma shutdown_inv_step:
  assumes "shutdown_inv K h w"
  shows "shutdown_inv K h (step a w)"
proof -
  from assms have h: "h < length (shutdowns w)" and k: "K \<subseteq> dom (entries w)"
    and j: "jobWaiter w = live_loops (trace w)"
    and p: "phase_inv K h (shutdowns w ! h) (trace w)"
    by (simp_all add: shutdown_inv_def)
  show ?thesis
  proof (cases a)
    case (CallAddFunc queue consumer fn)
    with h k j p show ?thesis
      by (auto simp: shutdown_inv_def AddFunc_def Let_def)
  next
    case OtherAddFunc
    with h k j p show ?thesis by (simp add: shutdown_inv_def)
  next
    case (CallStart ks)
    show ?thesis
    proof (cases "range_order ks w \<and> \<not> running w")
      case True
      then have s: "step a w =
         w\<lparr>running := True,
           jobWaiter := jobWaiter w + int (length ks),
           loops := loops w @ map (\<lambda>k. (k, the (entries w k))) ks,
           trace := trace w @ concat (map (\<lambda>k. [WaitGroupAdd, LoopLaunched k]) ks)\<rparr>"
        using CallStart Start_launches by simp
      have "Resolved h \<notin> set (concat (map (\<lambda>k. [WaitGroupAdd, LoopLaunched k]) ks))"
        by auto
      from phase_inv_append [OF p this] h k j show ?thesis
        by (simp add: s shutdown_inv_def live_loops_append live_loops_launches)
    next
      case False
      then have "step a w = w" using CallStart by (auto simp: Start_def)
      with assms show ?thesis by simp
    qed
  next
    case CallStop
    with h k j p show ?thesis
      by (simp add: shutdown_inv_def Stop_def nth_append)
  next
    case (LoopReturns i)
    have "Resolved h \<notin> set [LoopReturned (fst (loops w ! i))]" by simp
    from phase_inv_append [OF p this] h k j p LoopReturns show ?thesis
      by (simp add: shutdown_inv_def loop_returns_def live_loops_append)
  next
    case (ShutdownStep h' ks)
    show ?thesis
    proof (cases "h' < length (shutdowns w)")
      case False
      with ShutdownStep assms show ?thesis by simp
    next
      case True
      show ?thesis
      proof (cases "h' = h")
        case True
        with ShutdownStep h shutdown_inv_own_step [OF assms] show ?thesis by simp
      next
        case False
        with ShutdownStep True shutdown_inv_other_step [OF assms] show ?thesis by simp
      qed
    qed
  qed
qed

lemma shutdown_inv_exec: "shutdown_inv K h w \<Longrightarrow> shutdown_inv K h (exec as w)"
  by (induction as arbitrary: w) (auto intro: shutdown_inv_step)


lemma sane_new_consumer: "sane (new_consumer seq)"
  by (simp add: sane_def new_consumer_def)

lemma sane_shutdown_step:
  assumes "sane w" and "h < length (shutdowns w)"
  shows "sane (shutdown_step h ks w)"
proof (cases "shutdowns w ! h")
  case (InRange rest)
  with assms show ?thesis
    by (cases rest)
       (auto simp: sane_def shutdown_step_def set_pc_def emit_def live_loops_append)
qed (use assms in \<open>auto simp: sane_def shutdown_step_def set_pc_def emit_def live_loops_append\<close>)

lemma sane_step:
  assumes "sane w"
  shows "sane (step a w)"
proof (cases a)
  case (CallAddFunc queue consumer fn)
  with assms show ?thesis by (simp add: sane_def AddFunc_def Let_def)
next
  case OtherAddFunc
  with assms show ?thesis by (simp add: sane_def)
next
  case (CallStart ks)
  show ?thesis
  proof (cases "range_order ks w \<and> \<not> running w")
    case True
    then have s: "step a w =
       w\<lparr>running := True,
         jobWaiter := jobWaiter w + int (length ks),
         loops := loops w @ map (\<lambda>k. (k, the (entries w k))) ks,
         trace := trace w @ concat (map (\<lambda>k. [WaitGroupAdd, LoopLaunched k]) ks)\<rparr>"
      using CallStart Start_launches by simp
    from assms show ?thesis
      by (auto simp: s sane_def live_loops_append live_loops_launches)
  next
    case False
    then have "step a w = w" using CallStart by (auto simp: Start_def)
    with assms show ?thesis by simp
  qed
next
  case CallStop
  with assms show ?thesis by (auto simp: sane_def Stop_def less_Suc_eq)
next
  case (LoopReturns i)
  with assms show ?thesis
    by (auto simp: sane_def loop_returns_def live_loops_append)
next
  case (ShutdownStep h ks)
  with assms sane_shutdown_step show ?thesis by simp
qed

lemma sane_exec: "sane w \<Longrightarrow> sane (exec as w)"
  by (induction as arbitrary: w) (auto intro: sane_step)

lemma shutdown_inv_Stop:
  assumes "sane w"
  shows "shutdown_inv (dom (entries w)) (fst (Stop w)) (snd (Stop w))"
proof -
  from assms have "Resolved (length (shutdowns w)) \<notin> set (trace w)"
    by (auto simp: sane_def)
  with assms show ?thesis
    by (simp add: shutdown_inv_def Stop_def phase_inv_def sane_def)
qed

lemma resolved_only_when_complete:
  assumes "shutdown_inv K h w" and "Resolved h \<in> set (trace w)"
  shows "shutdown_complete K h (trace w)"
  using assms by (cases "shutdowns w ! h") (auto simp: shutdown_inv_def phase_inv_def)

text \<open>
  C3. \<^verbatim>\<open>Stop\<close>, called in any state the supervisor can reach, leaves the running flag
  false and returns its context at once, not yet resolved (the call takes no step of the
  goroutine it starts). Whenever that context is resolved later, the trace up to then
  holds, in this order: a Cancel by this goroutine for every identity that was registered
  when \<^verbatim>\<open>Stop\<close> was called; the return of its \<^verbatim>\<open>Wait\<close>, at a moment when every loop
  launched so far had returned; the return of \<^verbatim>\<open>ac.cli.Close()\<close>; the resolution.
\<close>

theorem Stop_shutdown_order:
  "(let w = exec before (new_consumer seq);
        h = fst (Stop w);
        w1 = snd (Stop w);
        w2 = exec after w1
    in running w1 = False
     \<and> \<not> resolved h w1
     \<and> (resolved h w2 \<longrightarrow>
          (\<exists>t1 t2 t3 t4.
              trace w2 = t1 @ WaitReturned h # t2 @ CliClose h # t3 @ Resolved h # t4
            \<and> (\<forall>c \<in> dom (entries w). CancelCall h c \<in> set t1)
            \<and> live_loops t1 = 0)))"
proof -
  define w where "w = exec before (new_consumer seq)"
  define h where "h = fst (Stop w)"
  define w1 where "w1 = snd (Stop w)"
  define w2 where "w2 = exec after w1"
  have sane: "sane w" unfolding w_def by (rule sane_exec [OF sane_new_consumer])
  have inv1: "shutdown_inv (dom (entries w)) h w1"
    unfolding h_def w1_def by (rule shutdown_inv_Stop [OF sane])
  have a: "running w1 = False" by (simp add: w1_def Stop_def)
  have b: "\<not> resolved h w1"
    using inv1 by (simp add: resolved_def shutdown_inv_def w1_def h_def Stop_def phase_inv_def)
  have c: "\<exists>t1 t2 t3 t4.
          trace w2 = t1 @ WaitReturned h # t2 @ CliClose h # t3 @ Resolved h # t4
        \<and> (\<forall>c \<in> dom (entries w). CancelCall h c \<in> set t1)
        \<and> live_loops t1 = 0"
    if "resolved h w2"
  proof -
    have "shutdown_inv (dom (entries w)) h w2"
      unfolding w2_def by (rule shutdown_inv_exec [OF inv1])
    with that have "shutdown_complete (dom (entries w)) h (trace w2)"
      by (simp add: resolved_def resolved_only_when_complete)
    then show ?thesis
      unfolding shutdown_complete_def cancelled_def by blast
  qed
  from a b c show ?thesis
    unfolding Let_def w_def [symmetric] h_def [symmetric] w1_def [symmetric] w2_def [symmetric]
    by blast
qed

theorem Stop_shutdown_order_witness:
  "resolved 0
     (exec [ShutdownStep 0 [''w1-1''], ShutdownStep 0 [], ShutdownStep 0 [], LoopReturns 0,
            ShutdownStep 0 [], ShutdownStep 0 [], ShutdownStep 0 []]
        (snd (Stop (exec [CallAddFunc ''orders'' ''w1'' ok_handler, CallStart [''w1-1'']]
                      (new_consumer 0)))))
 \<and> ''w1-1'' \<in> dom (entries (exec [CallAddFunc ''orders'' ''w1'' ok_handler, CallStart [''w1-1'']]
                              (new_consumer 0)))
 \<and> (\<exists>t1 t2 t3 t4.
      trace
        (exec [ShutdownStep 0 [''w1-1''], ShutdownStep 0 [], ShutdownStep 0 [], LoopReturns 0,
               ShutdownStep 0 [], ShutdownStep 0 [], ShutdownStep 0 []]
           (snd (Stop (exec [CallAddFunc ''orders'' ''w1'' ok_handler, CallStart [''w1-1'']]
                         (new_consumer 0)))))
        = t1 @ WaitReturned 0 # t2 @ CliClose 0 # t3 @ Resolved 0 # t4
      \<and> CancelCall 0 ''w1-1'' \<in> set t1 \<and> live_loops t1 = 0)"
proof -
  let ?before = "[CallAddFunc ''orders'' ''w1'' ok_handler, CallStart [''w1-1'']]"
  let ?after = "[ShutdownStep 0 [''w1-1''], ShutdownStep 0 [], ShutdownStep 0 [], LoopReturns 0,
                 ShutdownStep 0 [], ShutdownStep 0 [], ShutdownStep 0 []]"
  have h: "fst (Stop (exec ?before (new_consumer 0))) = 0"
    by (simp add: world_defs)
  have r: "resolved 0 (exec ?after (snd (Stop (exec ?before (new_consumer 0)))))"
    by (simp add: world_defs)
  have m: "''w1-1'' \<in> dom (entries (exec ?before (new_consumer 0)))"
    by (simp add: world_defs)
  note t = Stop_shutdown_order [where before = ?before and after = ?after and seq = 0,
      unfolded Let_def h]
  from t r m show ?thesis by blast
qed


subsection \<open>The registry\<close>

lemma entries_step: "\<not> is_AddFunc a \<Longrightarrow> entries (step a w) = entries w"
  by (cases a)
     (auto simp: Start_frame Stop_def loop_returns_def shutdown_step_frame)

lemma entries_exec: "\<forall>a \<in> set as. \<not> is_AddFunc a \<Longrightarrow> entries (exec as w) = entries w"
  by (induction as arbitrary: w) (auto simp: entries_step)



text \<open>
  C9 (as the code has it). \<^verbatim>\<open>Start\<close>, \<^verbatim>\<open>Stop\<close>, the return of a loop and the steps of a
  shutdown goroutine leave the registry as it is, in every state. \<^verbatim>\<open>AddFunc\<close> does not
  look at the running flag: it stores its entry under the new identity whether or not
  the supervisor has started.
\<close>

theorem registry_written_only_by_AddFunc:
  "(\<not> is_AddFunc a \<longrightarrow> entries (step a w) = entries w)
 \<and> ((\<forall>a \<in> set as. \<not> is_AddFunc a) \<longrightarrow> entries (exec as w) = entries w)
 \<and> entries (AddFunc queue consumer fn w)
     = (entries w)(consumer @ ''-'' @ FormatUint (consumerSeq w + 1)
                     \<mapsto> \<lparr>Queue = queue, Handler = fn\<rparr>)
 \<and> running (AddFunc queue consumer fn w) = running w"
  by (simp add: entries_step entries_exec AddFunc_def Let_def)

theorem registry_written_only_by_AddFunc_witness:
  "\<not> is_AddFunc (CallStart [])
 \<and> entries (exec [CallStart [], CallStop, ShutdownStep 0 []] (new_consumer 0))
     = entries (new_consumer 0)
 \<and> running (exec [CallStart []] (new_consumer 0))
 \<and> entries (AddFunc ''orders'' ''w1'' ok_handler (exec [CallStart []] (new_consumer 0)))
     = (entries (exec [CallStart []] (new_consumer 0)))
         (''w1'' @ ''-'' @ FormatUint (consumerSeq (exec [CallStart []] (new_consumer 0)) + 1)
            \<mapsto> \<lparr>Queue = ''orders'', Handler = ok_handler\<rparr>)"
proof -
  have n: "\<forall>a \<in> set [CallStart [], CallStop, ShutdownStep 0 []]. \<not> is_AddFunc a" by simp
  have r: "running (exec [CallStart []] (new_consumer 0))" by (simp add: world_defs)
  from registry_written_only_by_AddFunc
         [where a = "CallStart []" and as = "[CallStart [], CallStop, ShutdownStep 0 []]"
            and w = "new_consumer 0"] n
  have e: "entries (exec [CallStart [], CallStop, ShutdownStep 0 []] (new_consumer 0))
     = entries (new_consumer 0)"
    by blast
  from registry_written_only_by_AddFunc
         [where w = "exec [CallStart []] (new_consumer 0)" and queue = "''orders''"
            and consumer = "''w1''" and fn = ok_handler and as = "[]" and a = CallStop]
  have a: "entries (AddFunc ''orders'' ''w1'' ok_handler (exec [CallStart []] (new_consumer 0)))
     = (entries (exec [CallStart []] (new_consumer 0)))
         (''w1'' @ ''-'' @ FormatUint (consumerSeq (exec [CallStart []] (new_consumer 0)) + 1)
            \<mapsto> \<lparr>Queue = ''orders'', Handler = ok_handler\<rparr>)"
    by blast
  have s: "\<not> is_AddFunc (CallStart [])" by simp
  from s e r a show ?thesis by blast
qed

theorem registry_mutated_after_Start:
  "running (exec [CallStart []] (new_consumer 0))
 \<and> entries (exec [CallStart []] (new_consumer 0)) ''w1-1'' = None
 \<and> entries (exec [CallStart [], CallAddFunc ''orders'' ''w1'' ok_handler] (new_consumer 0)) ''w1-1''
     = Some \<lparr>Queue = ''orders'', Handler = ok_handler\<rparr>"
  by (simp add: world_defs)


subsection \<open>Registration after Start\<close>

























subsection \<open>Consumer identities\<close>

lemma unat_succ: "unat (x :: 64 word) + 1 < 2 ^ 64 \<Longrightarrow> unat (x + 1) = unat x + 1"
  by (simp add: unat_add_lem [THEN iffD1])

lemma digit_char_inj: "a < 10 \<Longrightarrow> b < 10 \<Longrightarrow> digit_char a = digit_char b \<Longrightarrow> a = b"
proof -
  assume a: "a < 10" and b: "b < 10" and e: "digit_char a = digit_char b"
  have d: "distinct ''0123456789''" by simp
  have "a < length ''0123456789''" "b < length ''0123456789''" using a b by simp_all
  with d e show "a = b" unfolding digit_char_def by (simp only: nth_eq_iff_index_eq)
qed

lemma digit_char_no_hyphen: "d < 10 \<Longrightarrow> digit_char d \<noteq> CHR ''-''"
proof -
  assume "d < 10"
  then have "d < length ''0123456789''" by simp
  then have "''0123456789'' ! d \<in> set ''0123456789''" by (rule nth_mem)
  then show ?thesis unfolding digit_char_def by auto
qed

lemma decimal_nonempty: "decimal n \<noteq> []"
  by (subst decimal.simps) simp

lemma decimal_no_hyphen: "CHR ''-'' \<notin> set (decimal n)"
proof (induction n rule: decimal.induct)
  case (1 n)
  show ?case
  proof (cases "n < 10")
    case True
    then show ?thesis using digit_char_no_hyphen [of n] by (auto simp: decimal_small)
  next
    case False
    have "n mod 10 < 10" by simp
    from digit_char_no_hyphen [OF this] 1 False show ?thesis
      by (subst decimal.simps) auto
  qed
qed

lemma decimal_long: "\<not> n < 10 \<Longrightarrow> 2 \<le> length (decimal n)"
proof -
  assume "\<not> n < 10"
  then have "decimal n = decimal (n div 10) @ [digit_char (n mod 10)]"
    by (subst decimal.simps) simp
  moreover have "1 \<le> length (decimal (n div 10))"
    using decimal_nonempty [of "n div 10"] by (cases "decimal (n div 10)") auto
  ultimately show ?thesis by simp
qed

lemma decimal_inj: "decimal m = decimal n \<Longrightarrow> m = n"
proof (induction m arbitrary: n rule: decimal.induct)
  case (1 m)
  show ?case
  proof (cases "m < 10")
    case True
    then have m: "decimal m = [digit_char m]" by (rule decimal_small)
    have n: "n < 10"
    proof (rule ccontr)
      assume "\<not> n < 10"
      then have "2 \<le> length (decimal n)" by (rule decimal_long)
      moreover from "1.prems" m have "decimal n = [digit_char m]" by simp
      ultimately show False by simp
    qed
    with m "1.prems" have "digit_char m = digit_char n" by (simp add: decimal_small)
    with True n show ?thesis by (rule digit_char_inj)
  next
    case False
    then have m: "decimal m = decimal (m div 10) @ [digit_char (m mod 10)]"
      by (subst decimal.simps) simp
    have n10: "\<not> n < 10"
    proof
      assume "n < 10"
      then have "decimal n = [digit_char n]" by (rule decimal_small)
      with "1.prems" have "decimal m = [digit_char n]" by simp
      with decimal_long [OF False] show False by simp
    qed
    then have n: "decimal n = decimal (n div 10) @ [digit_char (n mod 10)]"
      by (subst decimal.simps) simp
    from m n "1.prems" have d: "decimal (m div 10) = decimal (n div 10)"
      and c: "digit_char (m mod 10) = digit_char (n mod 10)"
      by simp_all
    from "1.IH" [OF False d] have q: "m div 10 = n div 10" .
    have "m mod 10 < 10" "n mod 10 < 10" by simp_all
    from digit_char_inj [OF this c] have r: "m mod 10 = n mod 10" .
    from q r show ?thesis by (metis div_mult_mod_eq)
  qed
qed

lemma FormatUint_inj: "FormatUint a = FormatUint b \<Longrightarrow> a = b"
  unfolding FormatUint_def by (auto dest: decimal_inj simp: word_unat_eq_iff)

lemma split_at_last:
  "xs @ c # ys = xs' @ c # ys' \<Longrightarrow> c \<notin> set ys \<Longrightarrow> c \<notin> set ys' \<Longrightarrow> xs = xs' \<and> ys = ys'"
proof (induction xs arbitrary: xs')
  case Nil
  then show ?case by (cases xs') auto
next
  case (Cons x xs)
  show ?case
  proof (cases xs')
    case Nil
    with Cons.prems show ?thesis by auto
  next
    case (Cons y ys'')
    with Cons.prems Cons.IH [of ys''] show ?thesis by auto
  qed
qed

lemma identity_decimal_inj:
  "l @ ''-'' @ decimal m = l' @ ''-'' @ decimal n \<Longrightarrow> l = l' \<and> m = n"
proof -
  assume "l @ ''-'' @ decimal m = l' @ ''-'' @ decimal n"
  then have "l @ CHR ''-'' # decimal m = l' @ CHR ''-'' # decimal n" by simp
  from split_at_last [OF this decimal_no_hyphen decimal_no_hyphen]
  show ?thesis by (auto dest: decimal_inj)
qed

lemma identity_inj:
  "(l @ ''-'' @ FormatUint s = l' @ ''-'' @ FormatUint s') \<longleftrightarrow> (l = l' \<and> s = s')"
  unfolding FormatUint_def using identity_decimal_inj [of l "unat s" l' "unat s'"]
  by (auto simp: word_unat_eq_iff)


lemma consumerSeq_step: "\<not> is_registration a \<Longrightarrow> consumerSeq (step a w) = consumerSeq w"
  by (cases a)
     (auto simp: Start_frame Stop_def loop_returns_def shutdown_step_frame)

lemma exec_snoc: "exec (as @ [a]) w = step a (exec as w)"
  by (simp add: exec_append)

lemma numbered_mono: "numbered lo hi k \<Longrightarrow> hi \<le> hi' \<Longrightarrow> numbered lo hi' k"
  unfolding numbered_def by (blast intro: le_trans)

lemma numbered_fresh:
  assumes "\<forall>k \<in> D. numbered lo hi k"
  shows "l @ ''-'' @ decimal (Suc hi) \<notin> D"
proof
  assume "l @ ''-'' @ decimal (Suc hi) \<in> D"
  with assms have "numbered lo hi (l @ ''-'' @ decimal (Suc hi))" by blast
  then obtain l' n where "l @ ''-'' @ decimal (Suc hi) = l' @ ''-'' @ decimal n" and "n \<le> hi"
    unfolding numbered_def by blast
  with identity_decimal_inj [of l "Suc hi" l' n] show False by simp
qed

lemma registry_numbered:
  "unat seq + registrations as < 2 ^ 64 \<Longrightarrow>
     unat (consumerSeq (exec as (new_consumer seq))) = unat seq + registrations as
   \<and> finite (dom (entries (exec as (new_consumer seq))))
   \<and> card (dom (entries (exec as (new_consumer seq)))) = own_registrations as
   \<and> (\<forall>k \<in> dom (entries (exec as (new_consumer seq))).
         numbered (unat seq) (unat seq + registrations as) k)"
proof (induction as rule: rev_induct)
  case Nil
  show ?case
    by (simp add: new_consumer_def registrations_def own_registrations_def)
next
  case (snoc a as)
  let ?w = "exec as (new_consumer seq)"
  let ?n = "unat seq + registrations as"
  have le: "registrations as \<le> registrations (as @ [a])"
    by (simp add: registrations_def)
  with snoc.prems have "?n < 2 ^ 64" by simp
  from snoc.IH [OF this] have
    u: "unat (consumerSeq ?w) = ?n" and f: "finite (dom (entries ?w))"
    and c: "card (dom (entries ?w)) = own_registrations as"
    and k: "\<forall>k \<in> dom (entries ?w). numbered (unat seq) ?n k"
    by simp_all
  have old: "\<forall>k \<in> dom (entries ?w). numbered (unat seq) (Suc ?n) k"
  proof
    fix x
    assume "x \<in> dom (entries ?w)"
    with k have "numbered (unat seq) ?n x" by blast
    then show "numbered (unat seq) (Suc ?n) x" by (rule numbered_mono) simp
  qed
  show ?case
  proof (cases "is_registration a")
    case False
    then have own: "\<not> is_AddFunc a" by (cases a) simp_all
    have r: "registrations (as @ [a]) = registrations as"
      and o: "own_registrations (as @ [a]) = own_registrations as"
      using False own by (simp_all add: registrations_def own_registrations_def)
    have e: "entries (exec (as @ [a]) (new_consumer seq)) = entries ?w"
      unfolding exec_snoc using own by (rule entries_step)
    have s: "consumerSeq (exec (as @ [a]) (new_consumer seq)) = consumerSeq ?w"
      unfolding exec_snoc using False by (rule consumerSeq_step)
    show ?thesis unfolding e s r o using u f c k by blast
  next
    case True
    then have r: "registrations (as @ [a]) = Suc (registrations as)"
      by (simp add: registrations_def)
    with snoc.prems u have "unat (consumerSeq ?w) + 1 < 2 ^ 64" by simp
    then have u': "unat (consumerSeq ?w + 1) = Suc ?n" using u by (simp add: unat_succ)
    have r': "unat seq + registrations (as @ [a]) = Suc ?n" using r by simp
    show ?thesis
    proof (cases a)
      case (CallAddFunc queue consumer fn)
      then have o: "own_registrations (as @ [a]) = Suc (own_registrations as)"
        by (simp add: own_registrations_def)
      let ?key = "consumer @ ''-'' @ decimal (Suc ?n)"
      have e: "entries (exec (as @ [a]) (new_consumer seq))
                 = (entries ?w)(?key \<mapsto> \<lparr>Queue = queue, Handler = fn\<rparr>)"
        and s: "consumerSeq (exec (as @ [a]) (new_consumer seq)) = consumerSeq ?w + 1"
        unfolding exec_snoc using CallAddFunc u'
        by (simp_all add: AddFunc_def Let_def FormatUint_def)
      have fresh: "?key \<notin> dom (entries ?w)" using k by (rule numbered_fresh)
      have new: "numbered (unat seq) (Suc ?n) ?key"
        unfolding numbered_def by (intro exI [of _ consumer] exI [of _ "Suc ?n"]) simp
      have d: "dom (entries (exec (as @ [a]) (new_consumer seq))) = insert ?key (dom (entries ?w))"
        unfolding e by simp
      have "card (insert ?key (dom (entries ?w))) = Suc (own_registrations as)"
        using f fresh c by simp
      then show ?thesis unfolding d s r' o using u' f new old by simp
    next
      case OtherAddFunc
      then have o: "own_registrations (as @ [a]) = own_registrations as"
        by (simp add: own_registrations_def)
      have e: "entries (exec (as @ [a]) (new_consumer seq)) = entries ?w"
        and s: "consumerSeq (exec (as @ [a]) (new_consumer seq)) = consumerSeq ?w + 1"
        unfolding exec_snoc using OtherAddFunc by simp_all
      show ?thesis unfolding e s r' o using u' f c old by simp
    qed (use True in simp_all)
  qed
qed


lemma exec_other_registrations:
  "exec (replicate n OtherAddFunc) w = w\<lparr>consumerSeq := consumerSeq w + of_nat n\<rparr>"
  by (induction n arbitrary: w) (simp_all add: algebra_simps)

text \<open>
  C5 (as the code has it). \<^verbatim>\<open>AddFunc\<close> stores the binding under the label, a hyphen and
  the decimal form of the new value of the shared counter, which is the old value plus
  one in \<^verbatim>\<open>uint64\<close>: one more as a number unless the old value is \<open>2^64 - 1\<close>. Two
  identities are equal only when both the labels and the counter values are equal.
  Hence, in every state the supervisor reaches from its construction, as long as the
  counter has not wrapped around since (fewer than \<open>2^64\<close> minus its initial value
  registrations in the process), the counter has grown by one per registration, the
  registry holds one entry per call of \<^verbatim>\<open>AddFunc\<close> on this consumer, and the next call
  stores under an identity that is not yet in the registry.
\<close>

theorem AddFunc_identity:
  "entries (AddFunc queue consumer fn w) (consumer @ ''-'' @ FormatUint (consumerSeq w + 1))
     = Some \<lparr>Queue = queue, Handler = fn\<rparr>
 \<and> dom (entries (AddFunc queue consumer fn w))
     = insert (consumer @ ''-'' @ FormatUint (consumerSeq w + 1)) (dom (entries w))
 \<and> consumerSeq (AddFunc queue consumer fn w) = consumerSeq w + 1
 \<and> (consumerSeq w \<noteq> - 1 \<longrightarrow> unat (consumerSeq w + 1) = unat (consumerSeq w) + 1)
 \<and> ((consumer @ ''-'' @ FormatUint s = consumer' @ ''-'' @ FormatUint s')
       \<longleftrightarrow> (consumer = consumer' \<and> s = s'))
 \<and> (unat seq + registrations as < 2 ^ 64 \<longrightarrow>
       unat (consumerSeq (exec as (new_consumer seq))) = unat seq + registrations as
     \<and> card (dom (entries (exec as (new_consumer seq)))) = own_registrations as)
 \<and> (unat seq + registrations as + 1 < 2 ^ 64 \<longrightarrow>
       consumer @ ''-'' @ FormatUint (consumerSeq (exec as (new_consumer seq)) + 1)
         \<notin> dom (entries (exec as (new_consumer seq))))"
proof (intro conjI impI)
  show "entries (AddFunc queue consumer fn w) (consumer @ ''-'' @ FormatUint (consumerSeq w + 1))
     = Some \<lparr>Queue = queue, Handler = fn\<rparr>"
    by (simp add: AddFunc_def Let_def)
  show "dom (entries (AddFunc queue consumer fn w))
     = insert (consumer @ ''-'' @ FormatUint (consumerSeq w + 1)) (dom (entries w))"
    by (simp add: AddFunc_def Let_def)
  show "consumerSeq (AddFunc queue consumer fn w) = consumerSeq w + 1"
    by (simp add: AddFunc_def Let_def)
  show "unat (consumerSeq w + 1) = unat (consumerSeq w) + 1" if "consumerSeq w \<noteq> - 1"
    using that by (metis add.commute unatSuc Suc_eq_plus1 add_eq_0_iff2)
  show "(consumer @ ''-'' @ FormatUint s = consumer' @ ''-'' @ FormatUint s')
       \<longleftrightarrow> (consumer = consumer' \<and> s = s')"
    by (rule identity_inj)
next
  assume "unat seq + registrations as < 2 ^ 64"
  from registry_numbered [OF this]
  show "unat (consumerSeq (exec as (new_consumer seq))) = unat seq + registrations as"
    and "card (dom (entries (exec as (new_consumer seq)))) = own_registrations as"
    by simp_all
next
  let ?w = "exec as (new_consumer seq)"
  assume b: "unat seq + registrations as + 1 < 2 ^ 64"
  then have "unat seq + registrations as < 2 ^ 64" by simp
  from registry_numbered [OF this] have
    u: "unat (consumerSeq ?w) = unat seq + registrations as"
    and k: "\<forall>k \<in> dom (entries ?w). numbered (unat seq) (unat seq + registrations as) k"
    by simp_all
  from b u have "unat (consumerSeq ?w + 1) = Suc (unat seq + registrations as)"
    by (simp add: unat_succ)
  then have "consumer @ ''-'' @ FormatUint (consumerSeq ?w + 1)
               = consumer @ ''-'' @ decimal (Suc (unat seq + registrations as))"
    by (simp add: FormatUint_def)
  with numbered_fresh [OF k, of consumer]
  show "consumer @ ''-'' @ FormatUint (consumerSeq ?w + 1) \<notin> dom (entries ?w)"
    by simp
qed

theorem AddFunc_identity_witness:
  "consumerSeq (new_consumer 0) \<noteq> - 1
 \<and> unat (0 :: 64 word)
     + registrations [CallAddFunc ''orders'' ''w1'' ok_handler, OtherAddFunc,
                      CallAddFunc ''events'' ''w1'' ok_handler] + 1 < 2 ^ 64
 \<and> registrations [CallAddFunc ''orders'' ''w1'' ok_handler, OtherAddFunc,
                   CallAddFunc ''events'' ''w1'' ok_handler] = 3
 \<and> own_registrations [CallAddFunc ''orders'' ''w1'' ok_handler, OtherAddFunc,
                       CallAddFunc ''events'' ''w1'' ok_handler] = 2
 \<and> unat (consumerSeq (new_consumer 0) + 1) = unat (consumerSeq (new_consumer 0)) + 1
 \<and> unat (consumerSeq (exec [CallAddFunc ''orders'' ''w1'' ok_handler, OtherAddFunc,
                             CallAddFunc ''events'' ''w1'' ok_handler] (new_consumer 0)))
     = unat (0 :: 64 word)
       + registrations [CallAddFunc ''orders'' ''w1'' ok_handler, OtherAddFunc,
                        CallAddFunc ''events'' ''w1'' ok_handler]
 \<and> card (dom (entries (exec [CallAddFunc ''orders'' ''w1'' ok_handler, OtherAddFunc,
                              CallAddFunc ''events'' ''w1'' ok_handler] (new_consumer 0))))
     = own_registrations [CallAddFunc ''orders'' ''w1'' ok_handler, OtherAddFunc,
                          CallAddFunc ''events'' ''w1'' ok_handler]
 \<and> ''w1'' @ ''-'' @ FormatUint (consumerSeq (exec [CallAddFunc ''orders'' ''w1'' ok_handler,
        OtherAddFunc, CallAddFunc ''events'' ''w1'' ok_handler] (new_consumer 0)) + 1)
     \<notin> dom (entries (exec [CallAddFunc ''orders'' ''w1'' ok_handler, OtherAddFunc,
                           CallAddFunc ''events'' ''w1'' ok_handler] (new_consumer 0)))"
proof -
  let ?as = "[CallAddFunc ''orders'' ''w1'' ok_handler, OtherAddFunc,
              CallAddFunc ''events'' ''w1'' ok_handler]"
  have n: "consumerSeq (new_consumer 0) \<noteq> - 1" by (simp add: new_consumer_def)
  have r: "registrations ?as = 3" "own_registrations ?as = 2"
    by (simp_all add: registrations_def own_registrations_def)
  have b: "unat (0 :: 64 word) + registrations ?as + 1 < 2 ^ 64"
    "unat (0 :: 64 word) + registrations ?as < 2 ^ 64"
    unfolding r by simp_all
  note t = AddFunc_identity [where w = "new_consumer 0" and seq = 0 and as = ?as
      and consumer = "''w1''" and queue = "''orders''" and fn = ok_handler
      and consumer' = "''w1''" and s = 0 and s' = 0]
  from t n b r show ?thesis by blast
qed

theorem identity_reused_after_wrap:
  "unat (consumerSeq (AddFunc ''orders'' ''w'' ok_handler (new_consumer 18446744073709551615)))
     < unat (consumerSeq (new_consumer 18446744073709551615))
 \<and> entries (exec (CallAddFunc ''orders'' ''w'' ok_handler # replicate (2 ^ 64 - 1) OtherAddFunc)
              (new_consumer 0)) ''w-1''
     = Some \<lparr>Queue = ''orders'', Handler = ok_handler\<rparr>
 \<and> entries (exec (CallAddFunc ''orders'' ''w'' ok_handler # replicate (2 ^ 64 - 1) OtherAddFunc
                    @ [CallAddFunc ''events'' ''w'' failing_handler])
              (new_consumer 0)) ''w-1''
     = Some \<lparr>Queue = ''events'', Handler = failing_handler\<rparr>
 \<and> dom (entries (exec (CallAddFunc ''orders'' ''w'' ok_handler # replicate (2 ^ 64 - 1) OtherAddFunc
                         @ [CallAddFunc ''events'' ''w'' failing_handler])
                   (new_consumer 0)))
     = {''w-1''}"
proof -
  let ?first = "AddFunc ''orders'' ''w'' ok_handler (new_consumer 0)"
  let ?others = "replicate (2 ^ 64 - 1) OtherAddFunc"
  have wrap: "(of_nat (2 ^ 64 - 1) :: 64 word) = - 1" by simp
  have f: "?first = \<lparr>entries = [''w-1'' \<mapsto> \<lparr>Queue = ''orders'', Handler = ok_handler\<rparr>],
                     running = False, jobWaiter = 0, consumerSeq = 1,
                     loops = [], shutdowns = [], redial_alive = True, trace = []\<rparr>"
    by (simp add: world_defs)
  have m: "exec (CallAddFunc ''orders'' ''w'' ok_handler # ?others) (new_consumer 0)
             = ?first\<lparr>consumerSeq := 0\<rparr>"
    unfolding exec.simps step.simps exec_other_registrations wrap f by simp
  have a: "unat (consumerSeq (AddFunc ''orders'' ''w'' ok_handler (new_consumer 18446744073709551615)))
     < unat (consumerSeq (new_consumer 18446744073709551615))"
    by (simp add: AddFunc_def new_consumer_def)
  have b: "entries (exec (CallAddFunc ''orders'' ''w'' ok_handler # ?others)
              (new_consumer 0)) ''w-1'' = Some \<lparr>Queue = ''orders'', Handler = ok_handler\<rparr>"
    unfolding m f by simp
  have e: "exec (CallAddFunc ''orders'' ''w'' ok_handler # ?others
                    @ [CallAddFunc ''events'' ''w'' failing_handler]) (new_consumer 0)
             = AddFunc ''events'' ''w'' failing_handler (?first\<lparr>consumerSeq := 0\<rparr>)"
    using m by (simp only: exec.simps exec_append step.simps)
  have c: "entries (exec (CallAddFunc ''orders'' ''w'' ok_handler # ?others
                    @ [CallAddFunc ''events'' ''w'' failing_handler]) (new_consumer 0)) ''w-1''
     = Some \<lparr>Queue = ''events'', Handler = failing_handler\<rparr>"
    unfolding e f by (simp add: AddFunc_def FormatUint_1)
  have d: "dom (entries (exec (CallAddFunc ''orders'' ''w'' ok_handler # ?others
                         @ [CallAddFunc ''events'' ''w'' failing_handler]) (new_consumer 0)))
     = {''w-1''}"
    unfolding e f by (simp add: AddFunc_def FormatUint_1)
  from a b c d show ?thesis by blast
qed

end
